theory Spec2Isabelle
  imports Complex_Main "HOL-Library.Multiset"
begin

section \<open>Python values used by the scanner\<close>

text \<open>
  The scanner exists twice, in \<^verbatim>\<open>scanner.py\<close> (command line) and in \<^verbatim>\<open>app.py\<close> (Flask).
  The two copies of \<^verbatim>\<open>fetch\<close>, \<^verbatim>\<open>can_fetch_robots\<close> and \<^verbatim>\<open>scan_target\<close> differ only in the
  constant \<^verbatim>\<open>DELAY_BETWEEN_REQUESTS\<close> and in \<^verbatim>\<open>if tasks:\<close> before \<^verbatim>\<open>asyncio.gather\<close>.

  Strings are \<^typ>\<open>string\<close>: a \<^typ>\<open>char\<close> is a code point below 256, and text with other
  code points is outside the model. Exceptions are values of \<open>exn\<close>; a call
  that can raise returns \<open>exn + 'a\<close>. The constructors are the classes that the \<^verbatim>\<open>except\<close>
  clauses of \<^verbatim>\<open>fetch\<close> tell apart, in the order of those clauses, each with \<^verbatim>\<open>str(e)\<close>:
  an exception that is both a timeout and an aiohttp client error (\<^verbatim>\<open>ServerTimeoutError\<close>) is
  caught by the first clause and is a \<open>TimeoutError\<close> here. All of them are subclasses of
  \<^verbatim>\<open>Exception\<close>.
\<close>

datatype exn =
    ValueError string
  | TimeoutError
  | ClientResponseError string
  | ClientError string
  | OtherException string

subsection \<open>String methods\<close>

definition lstrip :: "string \<Rightarrow> string \<Rightarrow> string" where
  "lstrip chars s = dropWhile (\<lambda>c. c \<in> set chars) s"

definition rstrip :: "string \<Rightarrow> string \<Rightarrow> string" where
  "rstrip chars s = rev (dropWhile (\<lambda>c. c \<in> set chars) (rev s))"

definition startswith :: "string \<Rightarrow> string \<Rightarrow> bool" where
  "startswith s p = (take (length p) s = p)"

text \<open>\<^verbatim>\<open>s.split(c)\<close> for a one-character separator: never the empty list.\<close>

fun split :: "char \<Rightarrow> string \<Rightarrow> string list" where
  "split c [] = [[]]"
| "split c (x # xs) =
     (if x = c then [] # split c xs
      else (case split c xs of [] \<Rightarrow> [[x]] | y # ys \<Rightarrow> (x # y) # ys))"

fun join :: "string \<Rightarrow> string list \<Rightarrow> string" where
  "join sep [] = []"
| "join sep [x] = x"
| "join sep (x # y # ys) = x @ sep @ join sep (y # ys)"

text \<open>\<^verbatim>\<open>s.partition(c)\<close>: the text before the first \<open>c\<close> and the text after it.\<close>

definition before :: "char \<Rightarrow> string \<Rightarrow> string" where
  "before c s = takeWhile (\<lambda>x. x \<noteq> c) s"

definition after :: "char \<Rightarrow> string \<Rightarrow> string" where
  "after c s = drop 1 (dropWhile (\<lambda>x. x \<noteq> c) s)"

definition is_ascii_alpha :: "char \<Rightarrow> bool" where
  "is_ascii_alpha c =
     (let n = (of_char c :: nat) in (65 \<le> n \<and> n \<le> 90) \<or> (97 \<le> n \<and> n \<le> 122))"

definition is_ascii_digit :: "char \<Rightarrow> bool" where
  "is_ascii_digit c = (let n = (of_char c :: nat) in 48 \<le> n \<and> n \<le> 57)"

definition lower :: "char \<Rightarrow> char" where
  "lower c = (let n = (of_char c :: nat) in if 65 \<le> n \<and> n \<le> 90 then char_of (n + 32) else c)"

section \<open>The standard library's URL functions\<close>

text \<open>
  \<^verbatim>\<open>urlparse\<close> and \<^verbatim>\<open>urljoin\<close> belong to Python's \<^verbatim>\<open>urllib.parse\<close>, not to the repository.
  They are written out here after CPython 3.11, for \<^verbatim>\<open>str\<close> arguments, because the scanner's
  URLs are what they return. Two checks of \<^verbatim>\<open>urlsplit\<close> call other modules, and their
  verdicts are parameters of the functions below: \<open>bh\<close> is the verdict of
  \<^verbatim>\<open>_check_bracketed_host\<close> (the \<^verbatim>\<open>ipaddress\<close> module) on the text between \<open>[\<close> and \<open>]\<close>, and
  \<open>nk\<close> is the verdict of \<^verbatim>\<open>_checknetloc\<close> (NFKC normalisation, \<^verbatim>\<open>unicodedata\<close>) on a netloc
  that is not ASCII; \<open>True\<close> means that the check does not raise.
\<close>

definition uses_relative :: "string list" where
  "uses_relative = ['''', ''ftp'', ''http'', ''gopher'', ''nntp'', ''imap'',
     ''wais'', ''file'', ''https'', ''shttp'', ''mms'',
     ''prospero'', ''rtsp'', ''rtsps'', ''rtspu'', ''sftp'',
     ''svn'', ''svn+ssh'', ''ws'', ''wss'']"

definition uses_netloc :: "string list" where
  "uses_netloc = ['''', ''ftp'', ''http'', ''gopher'', ''nntp'', ''telnet'',
     ''imap'', ''wais'', ''file'', ''mms'', ''https'', ''shttp'',
     ''snews'', ''prospero'', ''rtsp'', ''rtsps'', ''rtspu'', ''rsync'',
     ''svn'', ''svn+ssh'', ''sftp'', ''nfs'', ''git'', ''git+ssh'',
     ''ws'', ''wss'']"

definition uses_params :: "string list" where
  "uses_params = ['''', ''ftp'', ''hdl'', ''prospero'', ''http'', ''imap'',
     ''https'', ''shttp'', ''rtsp'', ''rtsps'', ''rtspu'', ''sip'',
     ''sips'', ''mms'', ''sftp'', ''tel'']"

definition scheme_char :: "char \<Rightarrow> bool" where
  "scheme_char c = (is_ascii_alpha c \<or> is_ascii_digit c \<or> c \<in> set ''+-.'')"

definition c0_control_or_space :: "char \<Rightarrow> bool" where
  "c0_control_or_space c = ((of_char c :: nat) \<le> 32)"

definition unsafe_url_byte :: "char \<Rightarrow> bool" where
  "unsafe_url_byte c = ((of_char c :: nat) \<in> {9, 13, 10})"

record split_result =
  scheme :: string
  netloc :: string
  path :: string
  query :: string
  fragment :: string

record parse_result = split_result +
  params :: string

text \<open>The scheme prefix of \<^verbatim>\<open>urlsplit\<close>: the default scheme stays when the text has none.\<close>

definition split_scheme :: "string \<Rightarrow> string \<Rightarrow> string \<times> string" where
  "split_scheme dflt url =
     (let pre = before CHR '':'' url in
      if CHR '':'' \<in> set url \<and> pre \<noteq> [] \<and> is_ascii_alpha (hd url) \<and> list_all scheme_char pre
      then (map lower pre, after CHR '':'' url)
      else (dflt, url))"

definition splitnetloc :: "string \<Rightarrow> string \<times> string" where
  "splitnetloc url =
     (let r = drop 2 url; stop = (\<lambda>c. c \<notin> set ''/?#'')
      in (takeWhile stop r, dropWhile stop r))"

definition is_ascii :: "char \<Rightarrow> bool" where
  "is_ascii c = ((of_char c :: nat) < 128)"

definition urlsplit ::
  "(string \<Rightarrow> bool) \<Rightarrow> (string \<Rightarrow> bool) \<Rightarrow> string \<Rightarrow> string \<Rightarrow> exn + split_result" where
  "urlsplit bh nk url0 scheme0 =
     (let url1 = filter (\<lambda>c. \<not> unsafe_url_byte c) (dropWhile c0_control_or_space url0);
          scheme1 = filter (\<lambda>c. \<not> unsafe_url_byte c)
                      (rev (dropWhile c0_control_or_space
                         (rev (dropWhile c0_control_or_space scheme0))));
          (sch, url2) = split_scheme scheme1 url1;
          (nl, url3) = (if take 2 url2 = ''//'' then splitnetloc url2 else ([], url2))
      in if take 2 url2 = ''//'' \<and>
            ((CHR ''['' \<in> set nl \<and> CHR '']'' \<notin> set nl) \<or> (CHR '']'' \<in> set nl \<and> CHR ''['' \<notin> set nl))
         then Inl (ValueError ''Invalid IPv6 URL'')
         else if take 2 url2 = ''//'' \<and> CHR ''['' \<in> set nl \<and> CHR '']'' \<in> set nl \<and>
                 \<not> bh (before CHR '']'' (after CHR ''['' nl))
         then Inl (ValueError ''invalid bracketed host'')
         else if nl \<noteq> [] \<and> \<not> list_all is_ascii nl \<and> \<not> nk nl
         then Inl (ValueError ''netloc contains invalid characters under NFKC normalization'')
         else
           let (url4, frag) = (if CHR ''#'' \<in> set url3
                               then (before CHR ''#'' url3, after CHR ''#'' url3) else (url3, []));
               (url5, qry) = (if CHR ''?'' \<in> set url4
                              then (before CHR ''?'' url4, after CHR ''?'' url4) else (url4, []))
           in Inr \<lparr>scheme = sch, netloc = nl, path = url5, query = qry, fragment = frag\<rparr>)"

definition splitparams :: "string \<Rightarrow> string \<times> string" where
  "splitparams url =
     (let last_seg = rev (before CHR ''/'' (rev url));
          dir = take (length url - length last_seg) url
      in if CHR '';'' \<in> set last_seg
         then (dir @ before CHR '';'' last_seg, after CHR '';'' last_seg)
         else (url, ''''))"

definition urlparse ::
  "(string \<Rightarrow> bool) \<Rightarrow> (string \<Rightarrow> bool) \<Rightarrow> string \<Rightarrow> string \<Rightarrow> exn + parse_result" where
  "urlparse bh nk url scheme0 =
     (case urlsplit bh nk url scheme0 of
        Inl e \<Rightarrow> Inl e
      | Inr r \<Rightarrow>
          let (u, ps) = (if scheme r \<in> set uses_params \<and> CHR '';'' \<in> set (path r)
                         then splitparams (path r) else (path r, ''''))
          in Inr \<lparr>scheme = scheme r, netloc = netloc r, path = u, query = query r,
                  fragment = fragment r, params = ps\<rparr>)"

definition urlunsplit :: "split_result \<Rightarrow> string" where
  "urlunsplit r =
     (let url1 = (if netloc r \<noteq> [] \<or> (scheme r \<noteq> [] \<and> scheme r \<in> set uses_netloc)
                     \<or> take 2 (path r) = ''//''
                  then ''//'' @ netloc r @
                       (if path r \<noteq> [] \<and> take 1 (path r) \<noteq> ''/'' then ''/'' @ path r else path r)
                  else path r);
          url2 = (if scheme r \<noteq> [] then scheme r @ '':'' @ url1 else url1);
          url3 = (if query r \<noteq> [] then url2 @ ''?'' @ query r else url2)
      in if fragment r \<noteq> [] then url3 @ ''#'' @ fragment r else url3)"

definition urlunparse :: "parse_result \<Rightarrow> string" where
  "urlunparse r =
     urlunsplit \<lparr>scheme = scheme r, netloc = netloc r,
                 path = (if params r \<noteq> [] then path r @ '';'' @ params r else path r),
                 query = query r, fragment = fragment r\<rparr>"

text \<open>The loop of \<^verbatim>\<open>urljoin\<close> over the segments; \<open>acc\<close> is \<^verbatim>\<open>resolved_path\<close>.\<close>

fun resolve_segments :: "string list \<Rightarrow> string list \<Rightarrow> string list" where
  "resolve_segments acc [] = acc"
| "resolve_segments acc (seg # segs) =
     (if seg = ''..'' then resolve_segments (butlast acc) segs
      else if seg = ''.'' then resolve_segments acc segs
      else resolve_segments (acc @ [seg]) segs)"

text \<open>\<^verbatim>\<open>segments[1:-1] = filter(None, segments[1:-1])\<close>\<close>

definition drop_empty_middle :: "string list \<Rightarrow> string list" where
  "drop_empty_middle segs =
     (if length segs < 2 then segs
      else hd segs # filter (\<lambda>s. s \<noteq> []) (butlast (tl segs)) @ [last segs])"

definition urljoin ::
  "(string \<Rightarrow> bool) \<Rightarrow> (string \<Rightarrow> bool) \<Rightarrow> string \<Rightarrow> string \<Rightarrow> exn + string" where
  "urljoin bh nk base url =
     (if base = [] then Inr url
      else if url = [] then Inr base
      else case urlparse bh nk base [] of
        Inl e \<Rightarrow> Inl e
      | Inr b \<Rightarrow>
         (case urlparse bh nk url (scheme b) of
            Inl e \<Rightarrow> Inl e
          | Inr u \<Rightarrow>
             if scheme u \<noteq> scheme b \<or> scheme u \<notin> set uses_relative then Inr url
             else if scheme u \<in> set uses_netloc \<and> netloc u \<noteq> [] then Inr (urlunparse u)
             else
               let nl = (if scheme u \<in> set uses_netloc then netloc b else netloc u) in
               if path u = [] \<and> params u = []
               then Inr (urlunparse (u\<lparr>netloc := nl, path := path b, params := params b,
                                       query := (if query u = [] then query b else query u)\<rparr>))
               else
                 let bp = split CHR ''/'' (path b);
                     base_parts = (if last bp \<noteq> [] then butlast bp else bp);
                     segments = (if take 1 (path u) = ''/'' then split CHR ''/'' (path u)
                                 else drop_empty_middle (base_parts @ split CHR ''/'' (path u)));
                     resolved0 = resolve_segments [] segments;
                     resolved = (if last segments \<in> {''.'', ''..''} then resolved0 @ [[]]
                                 else resolved0);
                     joined = join ''/'' resolved
                 in Inr (urlunparse (u\<lparr>netloc := nl,
                                         path := (if joined = [] then ''/'' else joined)\<rparr>))))"

section \<open>The scanner's data\<close>

text \<open>
  \<^verbatim>\<open>Scanner\<close> is \<^verbatim>\<open>scanner.py\<close>, \<^verbatim>\<open>App\<close> is \<^verbatim>\<open>app.py\<close>. Durations are seconds, as exact
  reals (the source computes them in floating point).
\<close>

datatype variant = Scanner | App

definition USER_AGENTS :: "string list" where
  "USER_AGENTS =
    [''Mozilla/5.0 (Windows NT 10.0; Win64; x64) AppleWebKit/537.36 (KHTML, like Gecko) Chrome/141.0.0.0 Safari/537.36'',
     ''Mozilla/5.0 (Macintosh; Intel Mac OS X 10_15_7) AppleWebKit/605.1.15 (KHTML, like Gecko) Version/16.5 Safari/605.1.15'',
     ''Mozilla/5.0 (X11; Linux x86_64) AppleWebKit/537.36 (KHTML, like Gecko) Chrome/141.0.0.0 Safari/537.36'',
     ''curl/8.0.1'',
     ''python-requests/2.31.0'']"

definition DEFAULT_WORDLIST :: "string list" where
  "DEFAULT_WORDLIST =
    [''/'', ''index.html'', ''home'', ''login'', ''logout'', ''admin'', ''dashboard'',
     ''user'', ''api/'', ''api/v1/'', ''status'', ''health'', ''ping'',
     ''robots.txt'', ''sitemap.xml'', ''favicon.ico'', ''.well-known/security.txt'',
     ''wp-login.php'', ''wp-admin'', ''admin/login'', ''config'', ''.well-known/assetlinks.json'']"

definition CONCURRENCY :: int where
  "CONCURRENCY = 10"

definition DELAY_BETWEEN_REQUESTS :: "variant \<Rightarrow> real" where
  "DELAY_BETWEEN_REQUESTS v = (case v of Scanner \<Rightarrow> 2 / 10 | App \<Rightarrow> 18 / 100)"

text \<open>
  What \<^verbatim>\<open>fetch\<close> reads from an aiohttp response. Reading \<^verbatim>\<open>content_length\<close> is inside a
  \<^verbatim>\<open>try\<close> of its own, so it may raise. \<open>resp_headers\<close> is what \<^verbatim>\<open>resp.headers.items()\<close>
  yields, a header that occurs twice being there twice.
\<close>

record response =
  resp_status :: int
  resp_reason :: string
  resp_url :: string
  resp_content_length :: "exn + int option"
  resp_headers :: "(string \<times> string) list"

datatype get_result = Response response | Raises exn

text \<open>
  \<^verbatim>\<open>resp.headers.get("Server")\<close>: the headers of aiohttp ignore the case of the name, and
  \<^verbatim>\<open>get\<close> returns the first value under it.
\<close>

fun headers_get :: "(string \<times> string) list \<Rightarrow> string \<Rightarrow> string option" where
  "headers_get [] name = None"
| "headers_get ((k, v) # hs) name =
     (if map lower k = map lower name then Some v else headers_get hs name)"

text \<open>
  \<^verbatim>\<open>{k: v for k, v in resp.headers.items()}\<close>: a dictionary keeps a key at the place where it
  was first set and takes the last value set for it.
\<close>

fun dict_set :: "string \<Rightarrow> string \<Rightarrow> (string \<times> string) list \<Rightarrow> (string \<times> string) list" where
  "dict_set k v [] = [(k, v)]"
| "dict_set k v ((k', v') # d) = (if k = k' then (k, v) # d else (k', v') # dict_set k v d)"

definition dict_of_items :: "(string \<times> string) list \<Rightarrow> (string \<times> string) list" where
  "dict_of_items items = foldl (\<lambda>d (k, v). dict_set k v d) [] items"

text \<open>
  The dictionaries appended to \<^verbatim>\<open>results\<close>: \<open>Success url status reason final_url
  content_length server headers\<close>, \<open>Skipped url skipped\<close> and \<open>Failed url error\<close>.
\<close>

datatype outcome =
    Success string int string string "int option" "string option" "(string \<times> string) list"
  | Skipped string string
  | Failed string string

fun outcome_url :: "outcome \<Rightarrow> string" where
  "outcome_url (Success u _ _ _ _ _ _) = u"
| "outcome_url (Skipped u _) = u"
| "outcome_url (Failed u _) = u"

fun is_skipped :: "outcome \<Rightarrow> bool" where
  "is_skipped (Skipped _ _) = True"
| "is_skipped _ = False"

text \<open>
  The calls that leave the process, in the order they are made. The number in each event is
  the position in \<^verbatim>\<open>paths\<close> of the path it is made for.
\<close>

datatype event =
    EvRobotsRead nat string
  | EvCanFetch nat string string
  | EvAcquire nat
  | EvRelease nat
  | EvGet nat string string
  | EvSleep nat real

fun event_path :: "event \<Rightarrow> nat" where
  "event_path (EvRobotsRead k _) = k"
| "event_path (EvCanFetch k _ _) = k"
| "event_path (EvAcquire k) = k"
| "event_path (EvRelease k) = k"
| "event_path (EvGet k _ _) = k"
| "event_path (EvSleep k _) = k"

fun is_get :: "event \<Rightarrow> bool" where
  "is_get (EvGet _ _ _) = True"
| "is_get _ = False"

fun is_sleep :: "event \<Rightarrow> bool" where
  "is_sleep (EvSleep _ _) = True"
| "is_sleep _ = False"

fun is_acquire :: "event \<Rightarrow> bool" where
  "is_acquire (EvAcquire _) = True"
| "is_acquire _ = False"

fun is_robots_read :: "event \<Rightarrow> bool" where
  "is_robots_read (EvRobotsRead _ _) = True"
| "is_robots_read _ = False"

text \<open>
  What the scanner cannot decide. \<open>bracketed_host_ok\<close> and \<open>netloc_ok\<close> are the two verdicts
  that \<^verbatim>\<open>urlsplit\<close> asks of other modules. \<open>urlopen\<close> is \<^verbatim>\<open>urllib.request.urlopen\<close> on the
  robots.txt URL for the \<open>k\<close>-th path, together with reading the body. \<open>rp_parse\<close> is
  \<^verbatim>\<open>raw.decode("utf-8").splitlines()\<close> and the loop of \<^verbatim>\<open>RobotFileParser.parse\<close>: it raises, or
  leaves rules of type \<open>'r\<close>. \<open>rp_can_fetch\<close> is the matching of a URL against those rules at
  the end of \<^verbatim>\<open>can_fetch\<close>. \<open>random_choice\<close> is the index that \<^verbatim>\<open>random.choice\<close> draws.
\<close>

datatype urlopen_result = HTTPError int | UrlopenRaises exn | UrlopenBody string

record 'r env =
  bracketed_host_ok :: "string \<Rightarrow> bool"
  netloc_ok :: "string \<Rightarrow> bool"
  urlopen :: "nat \<Rightarrow> string \<Rightarrow> urlopen_result"
  rp_parse :: "string \<Rightarrow> exn + 'r"
  rp_can_fetch :: "'r \<Rightarrow> string \<Rightarrow> string \<Rightarrow> exn + bool"
  random_choice :: "nat \<Rightarrow> nat"

section \<open>The Robots Gate and the Path Resolver\<close>

text \<open>
  The fields of a \<^verbatim>\<open>RobotFileParser\<close> that \<^verbatim>\<open>read\<close> and \<^verbatim>\<open>can_fetch\<close> use, after CPython 3.11
  \<^verbatim>\<open>urllib.robotparser\<close>. \<open>last_checked\<close> is whether the time of the last fetch is set; \<open>entries\<close>
  are the rules, once \<^verbatim>\<open>parse\<close> has run.
\<close>

record 'r robot_file_parser =
  disallow_all :: bool
  allow_all :: bool
  last_checked :: bool
  entries :: "'r option"

definition new_parser :: "'r robot_file_parser" where
  "new_parser = \<lparr>disallow_all = False, allow_all = False, last_checked = False, entries = None\<rparr>"

text \<open>
  \<^verbatim>\<open>RobotFileParser.read\<close>: an \<^verbatim>\<open>HTTPError\<close> of \<^verbatim>\<open>urlopen\<close> is caught inside \<^verbatim>\<open>read\<close> (401 and 403
  set \<^verbatim>\<open>disallow_all\<close>, another status from 400 to 499 sets \<^verbatim>\<open>allow_all\<close>, any other status
  sets nothing); every other exception leaves \<^verbatim>\<open>read\<close>. \<^verbatim>\<open>parse\<close> sets the time of the last
  fetch before it reads a line.
\<close>

definition rp_read :: "'r env \<Rightarrow> nat \<Rightarrow> string \<Rightarrow> exn + 'r robot_file_parser" where
  "rp_read env k url =
     (case urlopen env k url of
        HTTPError code \<Rightarrow>
          if code = 401 \<or> code = 403 then Inr (new_parser\<lparr>disallow_all := True\<rparr>)
          else if 400 \<le> code \<and> code < 500 then Inr (new_parser\<lparr>allow_all := True\<rparr>)
          else Inr new_parser
      | UrlopenRaises e \<Rightarrow> Inl e
      | UrlopenBody raw \<Rightarrow>
          (case rp_parse env raw of
             Inl e \<Rightarrow> Inl e
           | Inr rules \<Rightarrow> Inr (new_parser\<lparr>last_checked := True, entries := Some rules\<rparr>)))"

text \<open>\<^verbatim>\<open>RobotFileParser.can_fetch\<close>; with no rules at all it grants the access.\<close>

definition can_fetch ::
  "'r env \<Rightarrow> 'r robot_file_parser \<Rightarrow> string \<Rightarrow> string \<Rightarrow> exn + bool" where
  "can_fetch env rp useragent url =
     (if disallow_all rp then Inr False
      else if allow_all rp then Inr True
      else if \<not> last_checked rp then Inr False
      else case entries rp of None \<Rightarrow> Inr True | Some rules \<Rightarrow> rp_can_fetch env rules useragent url)"

text \<open>
  \<^verbatim>\<open>can_fetch_robots(base_url, path)\<close>, with the library calls it makes (\<^verbatim>\<open>set_url\<close> parses the
  robots.txt URL). Every exception inside its \<^verbatim>\<open>try\<close> ends in \<^verbatim>\<open>return True\<close>.
\<close>

definition can_fetch_robots :: "'r env \<Rightarrow> nat \<Rightarrow> string \<Rightarrow> string \<Rightarrow> event list \<times> bool" where
  "can_fetch_robots env k base_url p =
     (case urlparse (bracketed_host_ok env) (netloc_ok env) base_url [] of
        Inl e \<Rightarrow> ([], True)
      | Inr parsed \<Rightarrow>
          let robots_url = scheme parsed @ ''://'' @ netloc parsed @ ''/robots.txt'' in
          (case urlparse (bracketed_host_ok env) (netloc_ok env) robots_url [] of
             Inl e \<Rightarrow> ([], True)
           | Inr host_and_path \<Rightarrow>
              (case rp_read env k robots_url of
                 Inl e \<Rightarrow> ([EvRobotsRead k robots_url], True)
               | Inr rp \<Rightarrow>
                   (case urljoin (bracketed_host_ok env) (netloc_ok env) base_url p of
                      Inl e \<Rightarrow> ([EvRobotsRead k robots_url], True)
                    | Inr target \<Rightarrow>
                        ([EvRobotsRead k robots_url, EvCanFetch k ''*'' target],
                         (case can_fetch env rp ''*'' target of Inl e \<Rightarrow> True | Inr b \<Rightarrow> b))))))"

text \<open>
  The first statement of the loop of \<^verbatim>\<open>scan_target\<close>:
  \<^verbatim>\<open>urljoin(base_url.rstrip("/") + "/", p.lstrip("/"))\<close>.
\<close>

definition resolve ::
  "(string \<Rightarrow> bool) \<Rightarrow> (string \<Rightarrow> bool) \<Rightarrow> string \<Rightarrow> string \<Rightarrow> exn + string" where
  "resolve bh nk base_url p = urljoin bh nk (rstrip ''/'' base_url @ ''/'') (lstrip ''/'' p)"

section \<open>The Probe Worker\<close>

text \<open>
  A call of \<^verbatim>\<open>fetch\<close> is a coroutine; between two \<^verbatim>\<open>await\<close>s it runs alone. Its places of
  suspension are: \<open>Waiting\<close> at \<^verbatim>\<open>async with sem\<close>, \<open>InFlight\<close> in \<^verbatim>\<open>session.get\<close>, \<open>Polite\<close>
  in the sleep after a response, \<open>Backoff\<close> in the sleep before the retry. \<^verbatim>\<open>fetch\<close> calls
  itself for the retry from inside its own \<^verbatim>\<open>async with sem\<close>: \<open>t_outer\<close> lists the
  \<^verbatim>\<open>retries\<close> of the calls that are suspended in that way, innermost first. Each of them
  holds a slot of the semaphore, and does nothing but leave its \<^verbatim>\<open>async with\<close> when the
  inner call returns.
\<close>

datatype loc = Waiting | InFlight | Polite | Backoff | Done

record task =
  t_path :: nat
  t_url :: string
  t_headers :: string
  t_retries :: int
  t_loc :: loc
  t_outer :: "int list"

text \<open>
  \<open>sem\<close> is the value of the \<^verbatim>\<open>asyncio.Semaphore\<close>, \<open>results\<close> the shared list (each entry with the
  position of its path), \<open>tasks\<close> the coroutines given to \<^verbatim>\<open>asyncio.gather\<close>.
\<close>

record state =
  sem :: nat
  results :: "(nat \<times> outcome) list"
  tasks :: "task list"
  events :: "event list"

definition str_exn :: "exn \<Rightarrow> string" where
  "str_exn e = (case e of ValueError m \<Rightarrow> m | TimeoutError \<Rightarrow> [] | ClientResponseError m \<Rightarrow> m
                | ClientError m \<Rightarrow> m | OtherException m \<Rightarrow> m)"

text \<open>Slots of the semaphore that a task holds.\<close>

definition held :: "task \<Rightarrow> nat" where
  "held t = (case t_loc t of Done \<Rightarrow> 0 | Waiting \<Rightarrow> length (t_outer t)
             | _ \<Rightarrow> Suc (length (t_outer t)))"

text \<open>\<^verbatim>\<open>results.append\<close> by the task at position \<open>j\<close>.\<close>

definition append_result :: "nat \<Rightarrow> outcome \<Rightarrow> state \<Rightarrow> state" where
  "append_result j out s = s\<lparr>results := results s @ [(t_path (tasks s ! j), out)]\<rparr>"

text \<open>
  The call returns: it leaves its \<^verbatim>\<open>async with sem\<close>, and so does every call suspended
  around it.
\<close>

definition finish :: "nat \<Rightarrow> state \<Rightarrow> state" where
  "finish j s =
     (let t = tasks s ! j in
      s\<lparr>sem := sem s + held t,
        tasks := (tasks s)[j := t\<lparr>t_loc := Done, t_outer := []\<rparr>],
        events := events s @ replicate (held t) (EvRelease (t_path t))\<rparr>)"

text \<open>\<^verbatim>\<open>session.get\<close> of task \<open>j\<close> ends with \<open>g\<close>; \<open>r\<close> is what \<^verbatim>\<open>random.random()\<close> returns.\<close>

definition on_reply :: "variant \<Rightarrow> nat \<Rightarrow> get_result \<Rightarrow> real \<Rightarrow> state \<Rightarrow> state" where
  "on_reply v j g r s =
     (let t = tasks s ! j; u = t_url t in
      case g of
        Response resp \<Rightarrow>
          (let text_len = (case resp_content_length resp of Inl e \<Rightarrow> None | Inr n \<Rightarrow> n);
               info = Success u (resp_status resp) (resp_reason resp) (resp_url resp) text_len
                        (headers_get (resp_headers resp) ''Server'')
                        (dict_of_items (resp_headers resp));
               s1 = append_result j info s
           in s1\<lparr>tasks := (tasks s1)[j := t\<lparr>t_loc := Polite\<rparr>],
                 events := events s1 @ [EvSleep (t_path t) (DELAY_BETWEEN_REQUESTS v + r * (1 / 10))]\<rparr>)
      | Raises TimeoutError \<Rightarrow> finish j (append_result j (Failed u ''timeout'') s)
      | Raises (ClientResponseError m) \<Rightarrow>
          finish j (append_result j (Failed u (''response_error: '' @ m)) s)
      | Raises (ClientError m) \<Rightarrow>
          if t_retries t > 0
          then s\<lparr>tasks := (tasks s)[j := t\<lparr>t_loc := Backoff\<rparr>],
                 events := events s @ [EvSleep (t_path t) (1 / 2)]\<rparr>
          else finish j (append_result j (Failed u (''client_error: '' @ m)) s)
      | Raises e \<Rightarrow> finish j (append_result j (Failed u (''other_error: '' @ str_exn e)) s))"

text \<open>
  The event loop resumes one coroutine at a time. \<open>Grant j\<close>: task \<open>j\<close> enters
  \<^verbatim>\<open>async with sem\<close> and calls \<^verbatim>\<open>session.get\<close>. \<open>Reply j g r\<close>: its request ends. \<open>Wake j\<close>:
  its sleep ends. A step that the state does not allow is \<open>None\<close>.
\<close>

datatype label = Grant nat | Reply nat get_result real | Wake nat

fun step :: "variant \<Rightarrow> label \<Rightarrow> state \<Rightarrow> state option" where
  "step v (Grant j) s =
     (if j < length (tasks s) \<and> t_loc (tasks s ! j) = Waiting \<and> 0 < sem s
      then let t = tasks s ! j in
           Some (s\<lparr>sem := sem s - 1,
                   tasks := (tasks s)[j := t\<lparr>t_loc := InFlight\<rparr>],
                   events := events s @ [EvAcquire (t_path t),
                                         EvGet (t_path t) (t_url t) (t_headers t)]\<rparr>)
      else None)"
| "step v (Reply j g r) s =
     (if j < length (tasks s) \<and> t_loc (tasks s ! j) = InFlight \<and> 0 \<le> r \<and> r < 1
      then Some (on_reply v j g r s) else None)"
| "step v (Wake j) s =
     (if j < length (tasks s) \<and> t_loc (tasks s ! j) = Polite then Some (finish j s)
      else if j < length (tasks s) \<and> t_loc (tasks s ! j) = Backoff
      then let t = tasks s ! j in
           Some (s\<lparr>tasks := (tasks s)[j := t\<lparr>t_outer := t_retries t # t_outer t,
                                             t_retries := t_retries t - 1,
                                             t_loc := Waiting\<rparr>]\<rparr>)
      else None)"

fun exec :: "variant \<Rightarrow> label list \<Rightarrow> state \<Rightarrow> state option" where
  "exec v [] s = Some s"
| "exec v (l # ls) s = (case step v l s of None \<Rightarrow> None | Some s' \<Rightarrow> exec v ls s')"

definition complete :: "state \<Rightarrow> bool" where
  "complete s = list_all (\<lambda>t. t_loc t = Done) (tasks s)"

text \<open>No coroutine can be resumed, and some have not returned.\<close>

definition deadlocked :: "state \<Rightarrow> bool" where
  "deadlocked s = (\<not> complete s \<and> sem s = 0 \<and>
                   list_all (\<lambda>t. t_loc t = Done \<or> t_loc t = Waiting) (tasks s))"

definition in_flight :: "state \<Rightarrow> nat" where
  "in_flight s = length (filter (\<lambda>t. t_loc t = InFlight) (tasks s))"

section \<open>The Scan Orchestrator\<close>

text \<open>
  The loop of \<^verbatim>\<open>scan_target\<close> over \<^verbatim>\<open>paths\<close>; \<open>k\<close> is the position of the path. It has no
  \<^verbatim>\<open>await\<close>, so no task runs before it ends. An exception of \<^verbatim>\<open>urljoin\<close> leaves
  \<^verbatim>\<open>scan_target\<close>.
\<close>

fun schedule :: "'r env \<Rightarrow> string \<Rightarrow> nat \<Rightarrow> string list \<Rightarrow> state \<Rightarrow> exn + state" where
  "schedule env base_url k [] s = Inr s"
| "schedule env base_url k (p # ps) s =
     (case resolve (bracketed_host_ok env) (netloc_ok env) base_url p of
        Inl e \<Rightarrow> Inl e
      | Inr url \<Rightarrow>
          (case can_fetch_robots env k base_url p of
             (evs, allowed) \<Rightarrow>
               if \<not> allowed
               then schedule env base_url (Suc k) ps
                      (s\<lparr>results := results s @ [(k, Skipped url ''disallowed_by_robots_txt'')],
                         events := events s @ evs\<rparr>)
               else schedule env base_url (Suc k) ps
                      (s\<lparr>tasks := tasks s @
                           [\<lparr>t_path = k, t_url = url,
                             t_headers = USER_AGENTS ! (random_choice env k mod length USER_AGENTS),
                             t_retries = 1, t_loc = Waiting, t_outer = []\<rparr>],
                         events := events s @ evs\<rparr>)))"

text \<open>
  \<^verbatim>\<open>scan_target\<close> up to \<^verbatim>\<open>asyncio.gather\<close>. \<^verbatim>\<open>asyncio.Semaphore\<close> raises for a negative value.
\<close>

definition scan_start :: "'r env \<Rightarrow> string \<Rightarrow> string list \<Rightarrow> int \<Rightarrow> exn + state" where
  "scan_start env base_url ps concurrency =
     (if concurrency < 0 then Inl (ValueError ''Semaphore initial value must be >= 0'')
      else schedule env base_url 0 ps
             \<lparr>sem = nat concurrency, results = [], tasks = [], events = []\<rparr>)"

text \<open>
  \<^verbatim>\<open>scan_target\<close> under the schedule \<open>ls\<close> of the event loop: it raises, or returns
  \<^verbatim>\<open>results\<close> once every task has returned, or has not returned.
\<close>

datatype scan = ScanRaised exn | ScanReturned "outcome list" | ScanPending

definition scan_target ::
  "variant \<Rightarrow> 'r env \<Rightarrow> string \<Rightarrow> string list \<Rightarrow> int \<Rightarrow> label list \<Rightarrow> scan" where
  "scan_target v env base_url ps concurrency ls =
     (case scan_start env base_url ps concurrency of
        Inl e \<Rightarrow> ScanRaised e
      | Inr s0 \<Rightarrow>
          (case exec v ls s0 of
             None \<Rightarrow> ScanPending
           | Some s \<Rightarrow> if complete s then ScanReturned (map snd (results s)) else ScanPending))"

section \<open>The HTTP front end\<close>

text \<open>
  The JSON body of \<^verbatim>\<open>POST /api/scan\<close>. \<open>None\<close> is a key that is missing or \<^verbatim>\<open>null\<close>. An entry of
  \<^verbatim>\<open>paths\<close> is a string or something else; \<^verbatim>\<open>concurrency\<close> is an integer, as the docstring of
  \<^verbatim>\<open>api_scan\<close> has it.
\<close>

datatype jpath = JString string | JOther

record request =
  req_target :: "string option"
  req_use_default :: bool
  req_paths :: "jpath list option"
  req_concurrency :: "int option"

datatype api_response = ErrorResponse int string | ScanResponse "outcome list" nat

definition py_space :: "char \<Rightarrow> bool" where
  "py_space c = (let n = (of_char c :: nat) in
                   (9 \<le> n \<and> n \<le> 13) \<or> (28 \<le> n \<and> n \<le> 32) \<or> n = 133 \<or> n = 160)"

definition strip :: "string \<Rightarrow> string" where
  "strip s = rev (dropWhile py_space (rev (dropWhile py_space s)))"

definition api_target :: "string \<Rightarrow> string" where
  "api_target target =
     (if \<not> startswith target ''http://'' \<and> \<not> startswith target ''https://''
      then ''https://'' @ target else target)"

fun sanitize :: "jpath list \<Rightarrow> string list" where
  "sanitize [] = []"
| "sanitize (JString p # ps) = (if p \<noteq> [] then strip p # sanitize ps else sanitize ps)"
| "sanitize (JOther # ps) = sanitize ps"

definition api_paths :: "request \<Rightarrow> string list" where
  "api_paths req =
     (case req_paths req of
        None \<Rightarrow> DEFAULT_WORDLIST
      | Some user_paths \<Rightarrow>
          if req_use_default req \<or> user_paths = [] then DEFAULT_WORDLIST
          else sanitize user_paths)"

text \<open>
  \<^verbatim>\<open>int(data.get("concurrency") or CONCURRENCY)\<close>, then \<^verbatim>\<open>max(1, min(50, concurrency))\<close>:
  \<^verbatim>\<open>or\<close> takes the default for \<^verbatim>\<open>None\<close> and for \<open>0\<close>.
\<close>

definition api_concurrency :: "int option \<Rightarrow> int" where
  "api_concurrency c =
     (let requested = (case c of None \<Rightarrow> CONCURRENCY | Some n \<Rightarrow> if n = 0 then CONCURRENCY else n)
      in max 1 (min 50 requested))"

text \<open>\<^verbatim>\<open>api_scan\<close>; \<open>None\<close> while \<^verbatim>\<open>asyncio.run\<close> has not returned. The duration is left out.\<close>

definition api_scan :: "'r env \<Rightarrow> request \<Rightarrow> label list \<Rightarrow> api_response option" where
  "api_scan env req ls =
     (case req_target req of
        None \<Rightarrow> Some (ErrorResponse 400 ''target is required'')
      | Some target0 \<Rightarrow>
          if target0 = [] then Some (ErrorResponse 400 ''target is required'')
          else
            let target = api_target target0;
                ps = api_paths req;
                concurrency = api_concurrency (req_concurrency req)
            in (case scan_target App env target ps concurrency ls of
                  ScanRaised e \<Rightarrow> Some (ErrorResponse 500 (''scan failed: '' @ str_exn e))
                | ScanReturned res \<Rightarrow> Some (ScanResponse res (length ps))
                | ScanPending \<Rightarrow> None))"

section \<open>Quantities of a state\<close>

text \<open>Slots of the semaphore, free or held.\<close>

definition slots :: "state \<Rightarrow> nat" where
  "slots s = sem s + sum_list (map held (tasks s))"

text \<open>A task has appended its outcome once it sleeps after a response or has returned.\<close>

definition recorded :: "task \<Rightarrow> bool" where
  "recorded t = (t_loc t = Polite \<or> t_loc t = Done)"

text \<open>The paths with an outcome, and the paths whose task has still to append one.\<close>

definition accounted :: "state \<Rightarrow> nat multiset" where
  "accounted s = mset (map fst (results s)) +
                 mset (map t_path (filter (\<lambda>t. \<not> recorded t) (tasks s)))"

text \<open>Requests issued for the path at position \<open>k\<close>.\<close>

definition gets :: "nat \<Rightarrow> event list \<Rightarrow> nat" where
  "gets k evs = length (filter (\<lambda>e. is_get e \<and> event_path e = k) evs)"

text \<open>The events that a task produces, as opposed to those of the Robots Gate.\<close>

fun worker_event :: "event \<Rightarrow> bool" where
  "worker_event (EvRobotsRead _ _) = False"
| "worker_event (EvCanFetch _ _ _) = False"
| "worker_event _ = True"

text \<open>Requests that a task which has not returned has issued.\<close>

definition attempts :: "task \<Rightarrow> nat" where
  "attempts t = length (t_outer t) + (if t_loc t = Waiting then 0 else 1)"

text \<open>What one step does to the task it resumes.\<close>

inductive moves :: "task \<Rightarrow> task \<Rightarrow> (nat \<times> outcome) list \<Rightarrow> event list \<Rightarrow> bool" where
  m_grant: "t_loc t = Waiting \<Longrightarrow>
     moves t (t\<lparr>t_loc := InFlight\<rparr>) []
       [EvAcquire (t_path t), EvGet (t_path t) (t_url t) (t_headers t)]"
| m_success: "t_loc t = InFlight \<Longrightarrow>
     moves t (t\<lparr>t_loc := Polite\<rparr>) [(t_path t, Success (t_url t) st rs fu cl sv hs)]
       [EvSleep (t_path t) d]"
| m_failed: "t_loc t = InFlight \<Longrightarrow>
     moves t (t\<lparr>t_loc := Done, t_outer := []\<rparr>) [(t_path t, Failed (t_url t) err)]
       (replicate (held t) (EvRelease (t_path t)))"
| m_retry: "t_loc t = InFlight \<Longrightarrow> 0 < t_retries t \<Longrightarrow>
     moves t (t\<lparr>t_loc := Backoff\<rparr>) [] [EvSleep (t_path t) (1 / 2)]"
| m_polite: "t_loc t = Polite \<Longrightarrow>
     moves t (t\<lparr>t_loc := Done, t_outer := []\<rparr>) []
       (replicate (held t) (EvRelease (t_path t)))"
| m_backoff: "t_loc t = Backoff \<Longrightarrow>
     moves t (t\<lparr>t_outer := t_retries t # t_outer t, t_retries := t_retries t - 1,
                t_loc := Waiting\<rparr>) [] []"

text \<open>
  How the requests issued for a task's path follow its place in \<^verbatim>\<open>fetch\<close>, when
  \<^verbatim>\<open>scan_target\<close> has called \<^verbatim>\<open>fetch\<close> with \<^verbatim>\<open>retries=1\<close>.
\<close>

definition task_inv :: "event list \<Rightarrow> task \<Rightarrow> bool" where
  "task_inv es t =
     (if t_loc t = Done then gets (t_path t) es \<le> 2
      else t_retries t + int (length (t_outer t)) = 1 \<and> 0 \<le> t_retries t \<and>
           (t_loc t = Backoff \<longrightarrow> 0 < t_retries t) \<and>
           gets (t_path t) es = attempts t)"

text \<open>The task that a step resumes.\<close>

fun label_task :: "label \<Rightarrow> nat" where
  "label_task (Grant j) = j"
| "label_task (Reply j _ _) = j"
| "label_task (Wake j) = j"

text \<open>A bound on the steps that a task can still take.\<close>

definition fuel :: "task \<Rightarrow> nat" where
  "fuel t = (case t_loc t of
               Done \<Rightarrow> 0
             | Waiting \<Rightarrow> 4 * nat (t_retries t) + 4
             | InFlight \<Rightarrow> 4 * nat (t_retries t) + 3
             | Polite \<Rightarrow> 4 * nat (t_retries t) + 2
             | Backoff \<Rightarrow> 4 * nat (t_retries t) + 1)"

section \<open>Sample environments\<close>

text \<open>A target whose robots.txt allows everything.\<close>

definition allow_env :: "unit env" where
  "allow_env = \<lparr>bracketed_host_ok = (\<lambda>h. False), netloc_ok = (\<lambda>h. False),
     urlopen = (\<lambda>k u. UrlopenBody []), rp_parse = (\<lambda>raw. Inr ()),
     rp_can_fetch = (\<lambda>rp ua u. Inr True), random_choice = (\<lambda>k. 3)\<rparr>"

text \<open>A target whose robots.txt disallows everything under \<^verbatim>\<open>/app/\<close>.\<close>

definition deny_app_env :: "unit env" where
  "deny_app_env = \<lparr>bracketed_host_ok = (\<lambda>h. False), netloc_ok = (\<lambda>h. False),
     urlopen = (\<lambda>k u. UrlopenBody []), rp_parse = (\<lambda>raw. Inr ()),
     rp_can_fetch = (\<lambda>rp ua u. Inr (\<not> startswith u ''https://example.com/app/'')),
     random_choice = (\<lambda>k. 0)\<rparr>"

text \<open>A target whose robots.txt disallows \<^verbatim>\<open>/admin\<close>.\<close>

definition deny_admin_env :: "unit env" where
  "deny_admin_env = \<lparr>bracketed_host_ok = (\<lambda>h. False), netloc_ok = (\<lambda>h. False),
     urlopen = (\<lambda>k u. UrlopenBody []), rp_parse = (\<lambda>raw. Inr ()),
     rp_can_fetch = (\<lambda>rp ua u. Inr (u \<noteq> ''https://example.com/admin'')),
     random_choice = (\<lambda>k. 0)\<rparr>"

text \<open>A target that cannot be reached when robots.txt is fetched.\<close>

definition unreadable_env :: "unit env" where
  "unreadable_env = \<lparr>bracketed_host_ok = (\<lambda>h. False), netloc_ok = (\<lambda>h. False),
     urlopen = (\<lambda>k u. UrlopenRaises (OtherException ''urlopen error timed out'')),
     rp_parse = (\<lambda>raw. Inr ()),
     rp_can_fetch = (\<lambda>rp ua u. Inr False), random_choice = (\<lambda>k. 0)\<rparr>"

text \<open>A target that answers the request for robots.txt with the HTTP status \<open>code\<close>.\<close>

definition status_env :: "int \<Rightarrow> unit env" where
  "status_env code = \<lparr>bracketed_host_ok = (\<lambda>h. False), netloc_ok = (\<lambda>h. False),
     urlopen = (\<lambda>k u. HTTPError code), rp_parse = (\<lambda>raw. Inr ()),
     rp_can_fetch = (\<lambda>rp ua u. Inr True), random_choice = (\<lambda>k. 0)\<rparr>"

definition ok_response :: response where
  "ok_response = \<lparr>resp_status = 200, resp_reason = ''OK'',
     resp_url = ''https://example.com/admin'', resp_content_length = Inr (Some 12),
     resp_headers = [(''Server'', ''nginx'')]\<rparr>"

text \<open>A scan of three paths, the second of which robots.txt denies, and a schedule for it.\<close>

definition sample_paths :: "string list" where
  "sample_paths = [''/'', ''admin'', ''status'']"

definition sample_schedule :: "label list" where
  "sample_schedule =
     [Grant 0, Grant 1, Reply 1 (Response ok_response) (1 / 2), Reply 0 (Raises TimeoutError) 0,
      Wake 1]"

definition sample_request :: request where
  "sample_request = \<lparr>req_target = Some ''example.com'', req_use_default = False,
     req_paths = Some [JString ''/'', JString '' admin'', JOther, JString ''status''],
     req_concurrency = Some 3\<rparr>"

text \<open>
  One path, one slot: the task is granted the slot, its request ends in a client error, and
  the sleep before the retry ends.
\<close>

definition stuck_schedule :: "label list" where
  "stuck_schedule = [Grant 0, Reply 0 (Raises (ClientError ''connection reset'')) 0, Wake 0]"

section \<open>Lists updated at one position\<close>

lemma sum_list_map_update:
  fixes f :: "'a \<Rightarrow> nat"
  shows "j < length ts \<Longrightarrow>
         sum_list (map f (ts[j := t])) + f (ts ! j) = sum_list (map f ts) + f t"
proof (induction ts arbitrary: j)
  case Nil
  then show ?case by simp
next
  case (Cons a ts)
  then show ?case by (cases j) auto
qed

lemma mset_map_filter_update:
  "j < length ts \<Longrightarrow>
   mset (map f (filter P (ts[j := t]))) + (if P (ts ! j) then {#f (ts ! j)#} else {#})
     = mset (map f (filter P ts)) + (if P t then {#f t#} else {#})"
proof (induction ts arbitrary: j)
  case Nil
  then show ?case by simp
next
  case (Cons a ts)
  show ?case
  proof (cases j)
    case 0
    then show ?thesis by simp
  next
    case (Suc i)
    with Cons.prems have "i < length ts" by simp
    from Cons.IH [OF this] Suc show ?thesis by (auto split: if_splits)
  qed
qed

lemma map_update_same:
  "j < length ts \<Longrightarrow> f t = f (ts ! j) \<Longrightarrow> map f (ts[j := t]) = map f ts"
  by (simp add: map_update list_update_same_conv)

section \<open>One step of the event loop\<close>

lemma step_shape:
  assumes "step v l s = Some s'"
  shows "\<exists>j t' r evs. j < length (tasks s) \<and> moves (tasks s ! j) t' r evs \<and>
           tasks s' = (tasks s)[j := t'] \<and> results s' = results s @ r \<and>
           events s' = events s @ evs \<and> sem s' + held t' = sem s + held (tasks s ! j)"
proof (cases l)
  case (Grant j)
  with assms have en: "j < length (tasks s)" "t_loc (tasks s ! j) = Waiting" "0 < sem s"
    by (auto split: if_splits)
  with assms Grant have s': "s' = s\<lparr>sem := sem s - 1,
      tasks := (tasks s)[j := (tasks s ! j)\<lparr>t_loc := InFlight\<rparr>],
      events := events s @ [EvAcquire (t_path (tasks s ! j)),
                            EvGet (t_path (tasks s ! j)) (t_url (tasks s ! j)) (t_headers (tasks s ! j))]\<rparr>"
    by (simp add: Let_def)
  from en have "moves (tasks s ! j) ((tasks s ! j)\<lparr>t_loc := InFlight\<rparr>) []
      [EvAcquire (t_path (tasks s ! j)),
       EvGet (t_path (tasks s ! j)) (t_url (tasks s ! j)) (t_headers (tasks s ! j))]"
    by (intro m_grant)
  moreover from en have "sem s - 1 + held ((tasks s ! j)\<lparr>t_loc := InFlight\<rparr>)
      = sem s + held (tasks s ! j)"
    by (simp add: held_def)
  ultimately show ?thesis using en s'
    by (intro exI [of _ j] exI [of _ "(tasks s ! j)\<lparr>t_loc := InFlight\<rparr>"] exI [of _ "[]"]
          exI [of _ "[EvAcquire (t_path (tasks s ! j)),
       EvGet (t_path (tasks s ! j)) (t_url (tasks s ! j)) (t_headers (tasks s ! j))]"]) simp
next
  case (Reply j g r)
  with assms have en: "j < length (tasks s)" "t_loc (tasks s ! j) = InFlight"
    and s': "s' = on_reply v j g r s"
    by (auto split: if_splits)
  define t where "t = tasks s ! j"
  have fin: "\<exists>t' r evs. moves t t' r evs \<and>
           tasks (finish j (append_result j (Failed (t_url t) err) s)) = (tasks s)[j := t'] \<and>
           results (finish j (append_result j (Failed (t_url t) err) s)) = results s @ r \<and>
           events (finish j (append_result j (Failed (t_url t) err) s)) = events s @ evs \<and>
           sem (finish j (append_result j (Failed (t_url t) err) s)) + held t' = sem s + held t"
    for err
    using en m_failed [of t err]
    by (intro exI [of _ "t\<lparr>t_loc := Done, t_outer := []\<rparr>"]
              exI [of _ "[(t_path t, Failed (t_url t) err)]"]
              exI [of _ "replicate (held t) (EvRelease (t_path t))"])
       (simp add: finish_def append_result_def Let_def t_def held_def)
  show ?thesis
  proof (cases g)
    case (Response resp)
    have "moves t (t\<lparr>t_loc := Polite\<rparr>)
        [(t_path t, Success (t_url t) (resp_status resp) (resp_reason resp) (resp_url resp)
            (case resp_content_length resp of Inl e \<Rightarrow> None | Inr n \<Rightarrow> n)
            (headers_get (resp_headers resp) ''Server'') (dict_of_items (resp_headers resp)))]
        [EvSleep (t_path t) (DELAY_BETWEEN_REQUESTS v + r * (1 / 10))]"
      using en by (intro m_success) (simp add: t_def)
    then show ?thesis using en s' Response
      by (intro exI [of _ j] exI [of _ "t\<lparr>t_loc := Polite\<rparr>"]
            exI [of _ "[(t_path t, Success (t_url t) (resp_status resp) (resp_reason resp) (resp_url resp)
            (case resp_content_length resp of Inl e \<Rightarrow> None | Inr n \<Rightarrow> n)
            (headers_get (resp_headers resp) ''Server'') (dict_of_items (resp_headers resp)))]"]
            exI [of _ "[EvSleep (t_path t) (DELAY_BETWEEN_REQUESTS v + r * (1 / 10))]"])
         (simp add: on_reply_def append_result_def Let_def t_def held_def)
  next
    case (Raises e)
    show ?thesis
    proof (cases "\<exists>m. e = ClientError m \<and> 0 < t_retries t")
      case True
      then obtain m where e: "e = ClientError m" and pos: "0 < t_retries t" by blast
      have "moves t (t\<lparr>t_loc := Backoff\<rparr>) [] [EvSleep (t_path t) (1 / 2)]"
        using en pos by (intro m_retry) (simp_all add: t_def)
      then show ?thesis using en s' Raises e pos
        by (intro exI [of _ j] exI [of _ "t\<lparr>t_loc := Backoff\<rparr>"] exI [of _ "[]"]
              exI [of _ "[EvSleep (t_path t) (1 / 2)]"])
           (simp add: on_reply_def Let_def t_def held_def)
    next
      case False
      then obtain err where "s' = finish j (append_result j (Failed (t_url t) err) s)"
        using s' Raises by (cases e) (auto simp: on_reply_def Let_def t_def)
      with fin [of err] en show ?thesis unfolding t_def by blast
    qed
  qed
next
  case (Wake j)
  define t where "t = tasks s ! j"
  from assms Wake have en: "j < length (tasks s)" "t_loc t = Polite \<or> t_loc t = Backoff"
    by (auto simp: t_def split: if_splits)
  from en(2) show ?thesis
  proof
    assume p: "t_loc t = Polite"
    with assms Wake en have s': "s' = finish j s" by (simp add: t_def)
    from p have "moves t (t\<lparr>t_loc := Done, t_outer := []\<rparr>) []
        (replicate (held t) (EvRelease (t_path t)))" by (intro m_polite)
    then show ?thesis using en s'
      by (intro exI [of _ j] exI [of _ "t\<lparr>t_loc := Done, t_outer := []\<rparr>"] exI [of _ "[]"]
            exI [of _ "replicate (held t) (EvRelease (t_path t))"])
         (simp add: finish_def Let_def t_def held_def)
  next
    assume b: "t_loc t = Backoff"
    with assms Wake en have s': "s' = s\<lparr>tasks := (tasks s)[j := t\<lparr>t_outer := t_retries t # t_outer t,
        t_retries := t_retries t - 1, t_loc := Waiting\<rparr>]\<rparr>" by (simp add: t_def Let_def)
    from b have "moves t (t\<lparr>t_outer := t_retries t # t_outer t, t_retries := t_retries t - 1,
        t_loc := Waiting\<rparr>) [] []" by (intro m_backoff)
    then show ?thesis using en b s'
      by (intro exI [of _ j] exI [of _ "t\<lparr>t_outer := t_retries t # t_outer t,
            t_retries := t_retries t - 1, t_loc := Waiting\<rparr>"] exI [of _ "[]"] exI [of _ "[]"])
         (simp add: t_def held_def)
  qed
qed

lemma moves_same_path: "moves t t' r evs \<Longrightarrow> t_path t' = t_path t \<and> t_url t' = t_url t"
  by (induction rule: moves.induct) simp_all

lemma moves_recorded:
  "moves t t' r evs \<Longrightarrow>
   (r = [] \<and> recorded t' = recorded t) \<or>
   (\<exists>out. r = [(t_path t, out)] \<and> \<not> is_skipped out \<and> outcome_url out = t_url t \<and>
          \<not> recorded t \<and> recorded t')"
  by (induction rule: moves.induct) (simp_all add: recorded_def)

lemma moves_events:
  "moves t t' r evs \<Longrightarrow> e \<in> set evs \<Longrightarrow> worker_event e \<and> event_path e = t_path t"
  by (induction rule: moves.induct) auto

section \<open>What every step keeps\<close>

lemma step_slots: "step v l s = Some s' \<Longrightarrow> slots s' = slots s"
proof -
  assume "step v l s = Some s'"
  from step_shape [OF this] obtain j t' r evs where
    j: "j < length (tasks s)" and ts: "tasks s' = (tasks s)[j := t']"
    and sm: "sem s' + held t' = sem s + held (tasks s ! j)" by blast
  from sum_list_map_update [OF j, of held t'] sm show ?thesis
    by (simp add: slots_def ts)
qed

lemma step_accounted: "step v l s = Some s' \<Longrightarrow> accounted s' = accounted s"
proof -
  assume "step v l s = Some s'"
  from step_shape [OF this] obtain j t' r evs where
    j: "j < length (tasks s)" and mv: "moves (tasks s ! j) t' r evs"
    and ts: "tasks s' = (tasks s)[j := t']" and rs: "results s' = results s @ r" by blast
  note upd = mset_map_filter_update [OF j, of t_path "\<lambda>t. \<not> recorded t" t']
  from moves_same_path [OF mv] have p: "t_path t' = t_path (tasks s ! j)" by simp
  from moves_recorded [OF mv] show ?thesis
  proof
    assume "r = [] \<and> recorded t' = recorded (tasks s ! j)"
    with upd p show ?thesis by (auto simp: accounted_def ts rs split: if_splits)
  next
    assume "\<exists>out. r = [(t_path (tasks s ! j), out)] \<and> \<not> is_skipped out \<and>
              outcome_url out = t_url (tasks s ! j) \<and> \<not> recorded (tasks s ! j) \<and> recorded t'"
    with upd p show ?thesis by (auto simp: accounted_def ts rs split: if_splits)
  qed
qed

lemma step_identity:
  "step v l s = Some s' \<Longrightarrow>
   map t_path (tasks s') = map t_path (tasks s) \<and> map t_url (tasks s') = map t_url (tasks s)"
proof -
  assume "step v l s = Some s'"
  from step_shape [OF this] obtain j t' r evs where
    j: "j < length (tasks s)" and mv: "moves (tasks s ! j) t' r evs"
    and ts: "tasks s' = (tasks s)[j := t']" by blast
  from moves_same_path [OF mv] j show ?thesis
    by (simp add: ts map_update_same)
qed

lemma step_results:
  "step v l s = Some s' \<Longrightarrow>
   \<exists>r. results s' = results s @ r \<and>
       (\<forall>x \<in> set r. \<not> is_skipped (snd x) \<and>
          (\<exists>j < length (tasks s). t_path (tasks s ! j) = fst x \<and>
                                 t_url (tasks s ! j) = outcome_url (snd x)))"
proof -
  assume "step v l s = Some s'"
  from step_shape [OF this] obtain j t' r evs where
    j: "j < length (tasks s)" and mv: "moves (tasks s ! j) t' r evs"
    and rs: "results s' = results s @ r" by blast
  from moves_recorded [OF mv] j rs show ?thesis by auto
qed

lemma step_events:
  "step v l s = Some s' \<Longrightarrow>
   \<exists>evs. events s' = events s @ evs \<and>
       (\<forall>e \<in> set evs. worker_event e \<and> event_path e \<in> set (map t_path (tasks s)))"
proof -
  assume "step v l s = Some s'"
  from step_shape [OF this] obtain j t' r evs where
    j: "j < length (tasks s)" and mv: "moves (tasks s ! j) t' r evs"
    and es: "events s' = events s @ evs" by blast
  from moves_events [OF mv] j have
    "\<forall>e \<in> set evs. worker_event e \<and> event_path e \<in> set (map t_path (tasks s))"
    by (metis length_map nth_map nth_mem)
  with es show ?thesis by blast
qed

section \<open>What every schedule keeps\<close>

lemma exec_slots: "exec v ls s = Some s' \<Longrightarrow> slots s' = slots s"
  by (induction ls arbitrary: s) (auto split: option.splits dest: step_slots)

lemma exec_accounted: "exec v ls s = Some s' \<Longrightarrow> accounted s' = accounted s"
  by (induction ls arbitrary: s) (auto split: option.splits dest: step_accounted)

lemma exec_identity:
  "exec v ls s = Some s' \<Longrightarrow>
   map t_path (tasks s') = map t_path (tasks s) \<and> map t_url (tasks s') = map t_url (tasks s)"
  by (induction ls arbitrary: s) (auto split: option.splits dest: step_identity)

lemma exec_results:
  "exec v ls s = Some s' \<Longrightarrow>
   \<exists>r. results s' = results s @ r \<and>
       (\<forall>x \<in> set r. \<not> is_skipped (snd x) \<and>
          (\<exists>j < length (tasks s). t_path (tasks s ! j) = fst x \<and>
                                 t_url (tasks s ! j) = outcome_url (snd x)))"
proof (induction ls arbitrary: s)
  case Nil
  then show ?case by simp
next
  case (Cons l ls)
  then obtain s1 where st: "step v l s = Some s1" and ex: "exec v ls s1 = Some s'"
    by (auto split: option.splits)
  from step_results [OF st] obtain r1 where r1: "results s1 = results s @ r1"
    "\<forall>x \<in> set r1. \<not> is_skipped (snd x) \<and>
          (\<exists>j < length (tasks s). t_path (tasks s ! j) = fst x \<and>
                                 t_url (tasks s ! j) = outcome_url (snd x))" by blast
  from Cons.IH [OF ex] obtain r2 where r2: "results s' = results s1 @ r2"
    "\<forall>x \<in> set r2. \<not> is_skipped (snd x) \<and>
          (\<exists>j < length (tasks s1). t_path (tasks s1 ! j) = fst x \<and>
                                 t_url (tasks s1 ! j) = outcome_url (snd x))" by blast
  from step_identity [OF st] have idp: "map t_path (tasks s1) = map t_path (tasks s)"
    and idu: "map t_url (tasks s1) = map t_url (tasks s)" by simp_all
  have len: "length (tasks s1) = length (tasks s)" using idp by (metis length_map)
  have nth: "t_path (tasks s1 ! j) = t_path (tasks s ! j) \<and> t_url (tasks s1 ! j) = t_url (tasks s ! j)"
    if "j < length (tasks s)" for j
    using that idp idu len by (metis nth_map)
  have "\<forall>x \<in> set r2. \<not> is_skipped (snd x) \<and>
          (\<exists>j < length (tasks s). t_path (tasks s ! j) = fst x \<and>
                                 t_url (tasks s ! j) = outcome_url (snd x))"
    using r2(2) nth len by metis
  with r1 r2 show ?case by (intro exI [of _ "r1 @ r2"]) auto
qed

lemma exec_events:
  "exec v ls s = Some s' \<Longrightarrow>
   \<exists>evs. events s' = events s @ evs \<and>
       (\<forall>e \<in> set evs. worker_event e \<and> event_path e \<in> set (map t_path (tasks s)))"
proof (induction ls arbitrary: s)
  case Nil
  then show ?case by simp
next
  case (Cons l ls)
  then obtain s1 where st: "step v l s = Some s1" and ex: "exec v ls s1 = Some s'"
    by (auto split: option.splits)
  from step_events [OF st] obtain e1 where e1: "events s1 = events s @ e1"
    "\<forall>e \<in> set e1. worker_event e \<and> event_path e \<in> set (map t_path (tasks s))" by blast
  from Cons.IH [OF ex] obtain e2 where e2: "events s' = events s1 @ e2"
    "\<forall>e \<in> set e2. worker_event e \<and> event_path e \<in> set (map t_path (tasks s1))" by blast
  from step_identity [OF st] have "map t_path (tasks s1) = map t_path (tasks s)" by simp
  with e1 e2 show ?case by (intro exI [of _ "e1 @ e2"]) auto
qed

section \<open>The loop over the paths\<close>

lemma schedule_sem: "schedule env b k ps s = Inr s' \<Longrightarrow> sem s' = sem s"
proof (induction ps arbitrary: k s)
  case Nil
  then show ?case by simp
next
  case (Cons p ps)
  then show ?case
    by (fastforce split: sum.splits prod.splits if_splits)
qed

lemma schedule_accounted:
  "schedule env b k ps s = Inr s' \<Longrightarrow> accounted s' = accounted s + mset [k..<k + length ps]"
proof (induction ps arbitrary: k s)
  case Nil
  then show ?case by simp
next
  case (Cons p ps)
  from Cons.prems obtain s1 where
    s1: "schedule env b (Suc k) ps s1 = Inr s'" and a1: "accounted s1 = add_mset k (accounted s)"
    by (auto simp: accounted_def recorded_def split: sum.splits prod.splits if_splits)
  have "k < k + length (p # ps)" by simp
  from upt_conv_Cons [OF this]
  have "[k..<k + length (p # ps)] = k # [Suc k..<Suc k + length ps]"
    by (simp del: upt_Suc)
  then have eq: "mset [k..<k + length (p # ps)] = add_mset k (mset [Suc k..<Suc k + length ps])"
    by (simp only: mset.simps)
  from Cons.IH [OF s1] a1
  have "accounted s' = add_mset k (accounted s) + mset [Suc k..<Suc k + length ps]"
    by (simp only:)
  also have "\<dots> = accounted s + add_mset k (mset [Suc k..<Suc k + length ps])"
    by (simp only: union_mset_add_mset_left union_mset_add_mset_right)
  finally show ?case by (simp only: eq)
qed

lemma schedule_results:
  "schedule env b k ps s = Inr s' \<Longrightarrow>
   \<exists>sk. results s' = results s @ sk \<and> sorted_wrt (<) (map fst sk) \<and>
     (\<forall>x \<in> set sk. k \<le> fst x \<and> fst x < k + length ps \<and>
        \<not> snd (can_fetch_robots env (fst x) b (ps ! (fst x - k))) \<and>
        (\<exists>u. resolve (bracketed_host_ok env) (netloc_ok env) b (ps ! (fst x - k)) = Inr u \<and>
             snd x = Skipped u ''disallowed_by_robots_txt''))"
proof (induction ps arbitrary: k s)
  case Nil
  then show ?case by simp
next
  case (Cons p ps)
  from Cons.prems obtain u where u: "resolve (bracketed_host_ok env) (netloc_ok env) b p = Inr u"
    by (auto split: sum.splits)
  obtain evs allowed where cf: "can_fetch_robots env k b p = (evs, allowed)"
    by (cases "can_fetch_robots env k b p")
  define s1 where "s1 = (if \<not> allowed
      then s\<lparr>results := results s @ [(k, Skipped u ''disallowed_by_robots_txt'')],
             events := events s @ evs\<rparr>
      else s\<lparr>tasks := tasks s @
               [\<lparr>t_path = k, t_url = u,
                 t_headers = USER_AGENTS ! (random_choice env k mod length USER_AGENTS),
                 t_retries = 1, t_loc = Waiting, t_outer = []\<rparr>],
             events := events s @ evs\<rparr>)"
  from Cons.prems u cf have s1: "schedule env b (Suc k) ps s1 = Inr s'"
    by (auto simp: s1_def split: if_splits)
  from Cons.IH [OF s1] obtain sk where sk: "results s' = results s1 @ sk"
    "sorted_wrt (<) (map fst sk)"
    "\<forall>x \<in> set sk. Suc k \<le> fst x \<and> fst x < Suc k + length ps \<and>
        \<not> snd (can_fetch_robots env (fst x) b (ps ! (fst x - Suc k))) \<and>
        (\<exists>u. resolve (bracketed_host_ok env) (netloc_ok env) b (ps ! (fst x - Suc k)) = Inr u \<and>
             snd x = Skipped u ''disallowed_by_robots_txt'')" by blast
  have shift: "(p # ps) ! (i - k) = ps ! (i - Suc k)" if "Suc k \<le> i" for i
    using that by (simp add: Suc_diff_le)
  have tail: "\<forall>x \<in> set sk. k \<le> fst x \<and> fst x < k + length (p # ps) \<and>
        \<not> snd (can_fetch_robots env (fst x) b ((p # ps) ! (fst x - k))) \<and>
        (\<exists>u. resolve (bracketed_host_ok env) (netloc_ok env) b ((p # ps) ! (fst x - k)) = Inr u \<and>
             snd x = Skipped u ''disallowed_by_robots_txt'')"
    using sk(3) shift by fastforce
  show ?case
  proof (cases allowed)
    case True
    with sk(1) have "results s' = results s @ sk" by (simp add: s1_def)
    with sk(2) tail show ?thesis by blast
  next
    case False
    with sk(1) have r: "results s' = results s @ ((k, Skipped u ''disallowed_by_robots_txt'') # sk)"
      by (simp add: s1_def)
    from sk(2,3) have so: "sorted_wrt (<) (map fst ((k, Skipped u ''disallowed_by_robots_txt'') # sk))"
      by auto
    from False cf u tail have
      "\<forall>x \<in> set ((k, Skipped u ''disallowed_by_robots_txt'') # sk).
        k \<le> fst x \<and> fst x < k + length (p # ps) \<and>
        \<not> snd (can_fetch_robots env (fst x) b ((p # ps) ! (fst x - k))) \<and>
        (\<exists>u. resolve (bracketed_host_ok env) (netloc_ok env) b ((p # ps) ! (fst x - k)) = Inr u \<and>
             snd x = Skipped u ''disallowed_by_robots_txt'')"
      by simp
    with r so show ?thesis by blast
  qed
qed

lemma schedule_tasks:
  "schedule env b k ps s = Inr s' \<Longrightarrow>
   \<exists>ts. tasks s' = tasks s @ ts \<and> sorted_wrt (<) (map t_path ts) \<and>
     (\<forall>t \<in> set ts. k \<le> t_path t \<and> t_path t < k + length ps \<and>
        t_loc t = Waiting \<and> t_retries t = 1 \<and> t_outer t = [] \<and>
        snd (can_fetch_robots env (t_path t) b (ps ! (t_path t - k))) \<and>
        resolve (bracketed_host_ok env) (netloc_ok env) b (ps ! (t_path t - k)) = Inr (t_url t))"
proof (induction ps arbitrary: k s)
  case Nil
  then show ?case by simp
next
  case (Cons p ps)
  from Cons.prems obtain u where u: "resolve (bracketed_host_ok env) (netloc_ok env) b p = Inr u"
    by (auto split: sum.splits)
  obtain evs allowed where cf: "can_fetch_robots env k b p = (evs, allowed)"
    by (cases "can_fetch_robots env k b p")
  define t0 where "t0 = \<lparr>t_path = k, t_url = u,
                 t_headers = USER_AGENTS ! (random_choice env k mod length USER_AGENTS),
                 t_retries = 1, t_loc = Waiting, t_outer = []\<rparr>"
  define s1 where "s1 = (if \<not> allowed
      then s\<lparr>results := results s @ [(k, Skipped u ''disallowed_by_robots_txt'')],
             events := events s @ evs\<rparr>
      else s\<lparr>tasks := tasks s @ [t0], events := events s @ evs\<rparr>)"
  from Cons.prems u cf have s1: "schedule env b (Suc k) ps s1 = Inr s'"
    by (auto simp: s1_def t0_def split: if_splits)
  from Cons.IH [OF s1] obtain ts where ts: "tasks s' = tasks s1 @ ts"
    "sorted_wrt (<) (map t_path ts)"
    "\<forall>t \<in> set ts. Suc k \<le> t_path t \<and> t_path t < Suc k + length ps \<and>
        t_loc t = Waiting \<and> t_retries t = 1 \<and> t_outer t = [] \<and>
        snd (can_fetch_robots env (t_path t) b (ps ! (t_path t - Suc k))) \<and>
        resolve (bracketed_host_ok env) (netloc_ok env) b (ps ! (t_path t - Suc k)) = Inr (t_url t)" by blast
  have shift: "(p # ps) ! (i - k) = ps ! (i - Suc k)" if "Suc k \<le> i" for i
    using that by (simp add: Suc_diff_le)
  have tail: "\<forall>t \<in> set ts. k \<le> t_path t \<and> t_path t < k + length (p # ps) \<and>
        t_loc t = Waiting \<and> t_retries t = 1 \<and> t_outer t = [] \<and>
        snd (can_fetch_robots env (t_path t) b ((p # ps) ! (t_path t - k))) \<and>
        resolve (bracketed_host_ok env) (netloc_ok env) b ((p # ps) ! (t_path t - k)) = Inr (t_url t)"
    using ts(3) shift by fastforce
  show ?case
  proof (cases allowed)
    case False
    with ts(1) have "tasks s' = tasks s @ ts" by (simp add: s1_def)
    with ts(2) tail show ?thesis by blast
  next
    case True
    with ts(1) have r: "tasks s' = tasks s @ (t0 # ts)" by (simp add: s1_def)
    from ts(2,3) have so: "sorted_wrt (<) (map t_path (t0 # ts))"
      by (auto simp: t0_def)
    from True cf u tail have
      "\<forall>t \<in> set (t0 # ts). k \<le> t_path t \<and> t_path t < k + length (p # ps) \<and>
        t_loc t = Waiting \<and> t_retries t = 1 \<and> t_outer t = [] \<and>
        snd (can_fetch_robots env (t_path t) b ((p # ps) ! (t_path t - k))) \<and>
        resolve (bracketed_host_ok env) (netloc_ok env) b ((p # ps) ! (t_path t - k)) = Inr (t_url t)"
      by (simp add: t0_def)
    with r so show ?thesis by blast
  qed
qed

lemma can_fetch_robots_events:
  "e \<in> set (fst (can_fetch_robots env k b p)) \<Longrightarrow> \<not> worker_event e \<and> event_path e = k"
  by (auto simp: can_fetch_robots_def Let_def split: sum.splits)

lemma schedule_events:
  "schedule env b k ps s = Inr s' \<Longrightarrow>
   \<exists>evs. events s' = events s @ evs \<and> (\<forall>e \<in> set evs. \<not> worker_event e)"
proof (induction ps arbitrary: k s)
  case Nil
  then show ?case by simp
next
  case (Cons p ps)
  from Cons.prems obtain s1 where
    s1: "schedule env b (Suc k) ps s1 = Inr s'"
    and e1: "events s1 = events s @ fst (can_fetch_robots env k b p)"
    by (auto split: sum.splits prod.splits if_splits)
  from Cons.IH [OF s1] obtain evs where "events s' = events s1 @ evs"
    "\<forall>e \<in> set evs. \<not> worker_event e" by blast
  with e1 can_fetch_robots_events [of _ env k b p] show ?case
    by (intro exI [of _ "fst (can_fetch_robots env k b p) @ evs"]) auto
qed

section \<open>The state handed to \<^verbatim>\<open>asyncio.gather\<close>\<close>

lemma scan_start_schedule:
  "scan_start env b ps c = Inr s0 \<Longrightarrow>
   0 \<le> c \<and> schedule env b 0 ps \<lparr>sem = nat c, results = [], tasks = [], events = []\<rparr> = Inr s0"
  by (simp add: scan_start_def split: if_splits)

lemma scan_start_accounted:
  assumes "scan_start env b ps c = Inr s0"
  shows "accounted s0 = mset [0..<length ps]"
proof -
  from scan_start_schedule [OF assms] have
    "schedule env b 0 ps \<lparr>sem = nat c, results = [], tasks = [], events = []\<rparr> = Inr s0" ..
  from schedule_accounted [OF this] show ?thesis by (simp add: accounted_def)
qed

lemma scan_start_sem:
  assumes "scan_start env b ps c = Inr s0"
  shows "sem s0 = nat c"
proof -
  from scan_start_schedule [OF assms] have
    "schedule env b 0 ps \<lparr>sem = nat c, results = [], tasks = [], events = []\<rparr> = Inr s0" ..
  from schedule_sem [OF this] show ?thesis by simp
qed

lemma scan_start_results:
  assumes "scan_start env b ps c = Inr s0"
  shows "sorted_wrt (<) (map fst (results s0)) \<and>
   (\<forall>x \<in> set (results s0). fst x < length ps \<and>
        \<not> snd (can_fetch_robots env (fst x) b (ps ! fst x)) \<and>
        (\<exists>u. resolve (bracketed_host_ok env) (netloc_ok env) b (ps ! fst x) = Inr u \<and>
             snd x = Skipped u ''disallowed_by_robots_txt''))"
proof -
  from scan_start_schedule [OF assms] have
    "schedule env b 0 ps \<lparr>sem = nat c, results = [], tasks = [], events = []\<rparr> = Inr s0" ..
  from schedule_results [OF this] show ?thesis by simp
qed

lemma scan_start_tasks:
  assumes "scan_start env b ps c = Inr s0"
  shows "sorted_wrt (<) (map t_path (tasks s0)) \<and>
   (\<forall>t \<in> set (tasks s0). t_path t < length ps \<and>
        t_loc t = Waiting \<and> t_retries t = 1 \<and> t_outer t = [] \<and>
        snd (can_fetch_robots env (t_path t) b (ps ! t_path t)) \<and>
        resolve (bracketed_host_ok env) (netloc_ok env) b (ps ! t_path t) = Inr (t_url t))"
proof -
  from scan_start_schedule [OF assms] have
    "schedule env b 0 ps \<lparr>sem = nat c, results = [], tasks = [], events = []\<rparr> = Inr s0" ..
  from schedule_tasks [OF this] show ?thesis by simp
qed

lemma scan_start_events:
  assumes "scan_start env b ps c = Inr s0"
  shows "\<forall>e \<in> set (events s0). \<not> worker_event e"
proof -
  from scan_start_schedule [OF assms] have
    "schedule env b 0 ps \<lparr>sem = nat c, results = [], tasks = [], events = []\<rparr> = Inr s0" ..
  from schedule_events [OF this] show ?thesis by simp
qed

section \<open>The concurrency limit\<close>

lemma in_flight_le_held: "length (filter (\<lambda>t. t_loc t = InFlight) ts) \<le> sum_list (map held ts)"
  by (induction ts) (auto simp: held_def)

lemma scan_start_slots:
  assumes "scan_start env b ps c = Inr s0"
  shows "slots s0 = nat c"
proof -
  from scan_start_tasks [OF assms] have "\<forall>t \<in> set (tasks s0). held t = 0"
    by (simp add: held_def)
  then have "sum_list (map held (tasks s0)) = 0" by simp
  with scan_start_sem [OF assms] show ?thesis by (simp add: slots_def)
qed

text \<open>
  At most \<^verbatim>\<open>concurrency\<close> requests are in flight, under every schedule: the free slots and
  the slots held always add up to \<^verbatim>\<open>concurrency\<close>.
\<close>

lemma in_flight_bounded:
  assumes "scan_start env b ps c = Inr s0" and "exec v ls s0 = Some s"
  shows "in_flight s \<le> nat c"
proof -
  from exec_slots [OF assms(2)] scan_start_slots [OF assms(1)] have "slots s = nat c" by simp
  with in_flight_le_held [of "tasks s"] show ?thesis by (simp add: slots_def in_flight_def)
qed

text \<open>
  C2 (the code departs from the claim). The claim: a path takes one slot of the limiter for
  its probe and its retry, and the retry does not go through the limiter again. In the
  code \<^verbatim>\<open>fetch\<close> calls itself for the retry inside its own \<^verbatim>\<open>async with sem\<close>, so the retry
  asks for a second slot while the first is held. With \<^verbatim>\<open>concurrency = 1\<close>, one path and a
  first request that ends in a client error, the task holds the only slot and waits for
  another: no coroutine can run, nothing was recorded, and \<^verbatim>\<open>scan_target\<close> never returns.
\<close>

theorem retry_takes_second_slot_deadlock:
  "(case scan_start allow_env ''https://example.com'' [''admin''] 1 of
      Inl e \<Rightarrow> False
    | Inr s0 \<Rightarrow>
        (case exec Scanner [Grant 0, Reply 0 (Raises (ClientError ''connection reset'')) 0, Wake 0] s0 of
           None \<Rightarrow> False
         | Some s \<Rightarrow> deadlocked s \<and> results s = [] \<and> sem s = 0 \<and>
                     map held (tasks s) = [1] \<and> map t_loc (tasks s) = [Waiting]))"
  by code_simp

section \<open>The Robots Gate\<close>

text \<open>
  What does hold: when \<^verbatim>\<open>RobotFileParser.read\<close> lets an exception out (a failure of
  \<^verbatim>\<open>urlopen\<close> that is not an HTTP status, or of decoding), the gate answers \<^verbatim>\<open>True\<close> after that
  one read, and the gate never reads robots.txt more than once.
\<close>

lemma robots_gate_open_when_read_raises:
  "urlparse (bracketed_host_ok env) (netloc_ok env) b [] = Inr parsed \<Longrightarrow>
   urlparse (bracketed_host_ok env) (netloc_ok env)
     (scheme parsed @ ''://'' @ netloc parsed @ ''/robots.txt'') [] = Inr hp \<Longrightarrow>
   rp_read env k (scheme parsed @ ''://'' @ netloc parsed @ ''/robots.txt'') = Inl e \<Longrightarrow>
   can_fetch_robots env k b p =
     ([EvRobotsRead k (scheme parsed @ ''://'' @ netloc parsed @ ''/robots.txt'')], True)"
  by (simp add: can_fetch_robots_def Let_def)

lemma robots_gate_reads_once:
  "length (filter is_robots_read (fst (can_fetch_robots env k b p))) \<le> 1"
  by (auto simp: can_fetch_robots_def Let_def split: sum.splits)

text \<open>
  C3 (the code departs from the claim). The claim: whenever robots.txt cannot be fetched or
  parsed, the gate answers \<^verbatim>\<open>True\<close>; the comment in \<^verbatim>\<open>can_fetch_robots\<close> says the same (``if
  robots.txt unreadable ... allow''). But when the server answers the request for robots.txt
  with 403 or with 500, \<^verbatim>\<open>urlopen\<close> raises \<^verbatim>\<open>HTTPError\<close> inside \<^verbatim>\<open>RobotFileParser.read\<close>, which
  catches it, so nothing reaches the \<^verbatim>\<open>except\<close> of \<^verbatim>\<open>can_fetch_robots\<close>: \<^verbatim>\<open>can_fetch\<close> answers
  \<^verbatim>\<open>False\<close>, and \<^verbatim>\<open>scan_target\<close> skips the path as disallowed. When the request simply fails
  (no HTTP status), the gate does answer \<^verbatim>\<open>True\<close>.
\<close>

theorem robots_gate_closed_on_http_error:
  "can_fetch_robots (status_env 403) 0 ''https://example.com'' ''admin'' =
     ([EvRobotsRead 0 ''https://example.com/robots.txt'',
       EvCanFetch 0 ''*'' ''https://example.com/admin''], False) \<and>
   can_fetch_robots (status_env 500) 0 ''https://example.com'' ''admin'' =
     ([EvRobotsRead 0 ''https://example.com/robots.txt'',
       EvCanFetch 0 ''*'' ''https://example.com/admin''], False) \<and>
   can_fetch_robots unreadable_env 0 ''https://example.com'' ''admin'' =
     ([EvRobotsRead 0 ''https://example.com/robots.txt''], True) \<and>
   (case scan_start (status_env 500) ''https://example.com'' [''admin''] 10 of
      Inl e \<Rightarrow> False
    | Inr s0 \<Rightarrow>
        results s0 = [(0, Skipped ''https://example.com/admin'' ''disallowed_by_robots_txt'')] \<and>
        tasks s0 = [])"
  by code_simp

text \<open>
  C7 (the code departs from the claim). The claim: the gate evaluates the URL that the
  worker requests. The gate evaluates \<^verbatim>\<open>urljoin(base_url, path)\<close>, the worker requests
  \<^verbatim>\<open>urljoin(base_url.rstrip("/") + "/", p.lstrip("/"))\<close>. For the base
  \<^verbatim>\<open>https://example.com/app\<close> and the path \<^verbatim>\<open>admin\<close> the gate asks about
  \<^verbatim>\<open>https://example.com/admin\<close> and allows the path, while the request goes to
  \<^verbatim>\<open>https://example.com/app/admin\<close>, which this robots.txt disallows.
\<close>

theorem robots_gate_evaluates_other_url:
  "can_fetch_robots deny_app_env 0 ''https://example.com/app'' ''admin'' =
     ([EvRobotsRead 0 ''https://example.com/robots.txt'',
       EvCanFetch 0 ''*'' ''https://example.com/admin''], True) \<and>
   resolve (bracketed_host_ok deny_app_env) (netloc_ok deny_app_env) ''https://example.com/app'' ''admin'' =
     Inr ''https://example.com/app/admin'' \<and>
   rp_can_fetch deny_app_env () ''*'' ''https://example.com/app/admin'' = Inr False \<and>
   (case scan_start deny_app_env ''https://example.com/app'' [''admin''] 10 of
      Inl e \<Rightarrow> False
    | Inr s0 \<Rightarrow> results s0 = [] \<and> map t_url (tasks s0) = [''https://example.com/app/admin''])"
  by code_simp

section \<open>The front end's concurrency\<close>




section \<open>The politeness pause\<close>

text \<open>
  C5 as stated fails after a failure: a request that times out is recorded, the slot is
  released, and the worker has not slept.
\<close>

theorem no_pause_after_failure_counterexample:
  "(case scan_start allow_env ''https://example.com'' [''admin''] 1 of
      Inl e \<Rightarrow> False
    | Inr s0 \<Rightarrow>
        (case exec Scanner [Grant 0, Reply 0 (Raises TimeoutError) 0] s0 of
           None \<Rightarrow> False
         | Some s \<Rightarrow> complete s \<and> sem s = 1 \<and>
                     map snd (results s) = [Failed ''https://example.com/admin'' ''timeout''] \<and>
                     filter is_sleep (events s) = []))"
  by code_simp

text \<open>
  C5, amended. When a request ends with a response, the worker appends the Success outcome
  and then, still holding its slot, sleeps for \<^verbatim>\<open>DELAY_BETWEEN_REQUESTS\<close> (0.2 s in
  \<^verbatim>\<open>scanner.py\<close>, 0.18 s in \<^verbatim>\<open>app.py\<close>) plus a jitter of one tenth of what \<^verbatim>\<open>random.random()\<close>
  returned, which is uniform between 0 and 0.1 s as that number is between 0 and 1; the
  slot is released when that sleep ends, and nothing is recorded then. When a request ends
  with a failure that is recorded, the slot is released at once and the worker does not
  sleep.
\<close>

theorem polite_pause_after_response:
  assumes "step v (Reply j g r) s = Some s'"
  shows "(\<forall>resp. g = Response resp \<longrightarrow>
            results s' = results s @
              [(t_path (tasks s ! j),
                Success (t_url (tasks s ! j)) (resp_status resp) (resp_reason resp) (resp_url resp)
                  (case resp_content_length resp of Inl e \<Rightarrow> None | Inr n \<Rightarrow> n)
                  (headers_get (resp_headers resp) ''Server'')
                  (dict_of_items (resp_headers resp)))] \<and>
            t_loc (tasks s' ! j) = Polite \<and> sem s' = sem s \<and>
            events s' = events s @
              [EvSleep (t_path (tasks s ! j)) (DELAY_BETWEEN_REQUESTS v + r * (1 / 10))] \<and>
            0 \<le> r * (1 / 10) \<and> r * (1 / 10) < 1 / 10 \<and>
            step v (Wake j) s' = Some (finish j s') \<and>
            results (finish j s') = results s' \<and>
            sem (finish j s') = sem s + held (tasks s ! j)) \<and>
         (\<forall>e. g = Raises e \<and> t_loc (tasks s' ! j) \<noteq> Backoff \<longrightarrow>
            t_loc (tasks s' ! j) = Done \<and> sem s' = sem s + held (tasks s ! j) \<and>
            (\<exists>err. results s' = results s @ [(t_path (tasks s ! j), Failed (t_url (tasks s ! j)) err)]) \<and>
            events s' = events s @ replicate (held (tasks s ! j)) (EvRelease (t_path (tasks s ! j)))) \<and>
         DELAY_BETWEEN_REQUESTS Scanner = 2 / 10 \<and> DELAY_BETWEEN_REQUESTS App = 18 / 100"
proof -
  from assms have en: "j < length (tasks s)" "t_loc (tasks s ! j) = InFlight" "0 \<le> r" "r < 1"
    and s': "s' = on_reply v j g r s"
    by (auto split: if_splits)
  have a: "results s' = results s @
              [(t_path (tasks s ! j),
                Success (t_url (tasks s ! j)) (resp_status resp) (resp_reason resp) (resp_url resp)
                  (case resp_content_length resp of Inl e \<Rightarrow> None | Inr n \<Rightarrow> n)
                  (headers_get (resp_headers resp) ''Server'')
                  (dict_of_items (resp_headers resp)))] \<and>
            t_loc (tasks s' ! j) = Polite \<and> sem s' = sem s \<and>
            events s' = events s @
              [EvSleep (t_path (tasks s ! j)) (DELAY_BETWEEN_REQUESTS v + r * (1 / 10))] \<and>
            0 \<le> r * (1 / 10) \<and> r * (1 / 10) < 1 / 10 \<and>
            step v (Wake j) s' = Some (finish j s') \<and>
            results (finish j s') = results s' \<and>
            sem (finish j s') = sem s + held (tasks s ! j)"
    if "g = Response resp" for resp
    using that en s'
    by (simp add: on_reply_def append_result_def finish_def held_def Let_def)
  have b: "t_loc (tasks s' ! j) = Done \<and> sem s' = sem s + held (tasks s ! j) \<and>
            (\<exists>err. results s' = results s @ [(t_path (tasks s ! j), Failed (t_url (tasks s ! j)) err)]) \<and>
            events s' = events s @ replicate (held (tasks s ! j)) (EvRelease (t_path (tasks s ! j)))"
    if "g = Raises e" "t_loc (tasks s' ! j) \<noteq> Backoff" for e
    using that en s'
    by (cases e)
       (auto simp: on_reply_def append_result_def finish_def Let_def split: if_splits)
  have c: "DELAY_BETWEEN_REQUESTS Scanner = 2 / 10 \<and> DELAY_BETWEEN_REQUESTS App = 18 / 100"
    by (simp add: DELAY_BETWEEN_REQUESTS_def)
  from a b c show ?thesis by blast
qed

lemma sample_in_flight:
  "\<exists>s0 s. scan_start allow_env ''https://example.com'' [''admin''] 2 = Inr s0 \<and>
          exec App [Grant 0] s0 = Some s \<and>
          step App (Reply 0 (Response ok_response) (1 / 2)) s \<noteq> None \<and>
          step App (Reply 0 (Raises TimeoutError) 0) s \<noteq> None \<and>
          step App (Reply 0 (Raises (ClientError ''connection reset'')) 0) s \<noteq> None"
proof -
  have c: "case scan_start allow_env ''https://example.com'' [''admin''] 2 of
          Inl e \<Rightarrow> False
        | Inr s0 \<Rightarrow> (case exec App [Grant 0] s0 of None \<Rightarrow> False
            | Some s \<Rightarrow> step App (Reply 0 (Response ok_response) (1 / 2)) s \<noteq> None \<and>
                        step App (Reply 0 (Raises TimeoutError) 0) s \<noteq> None \<and>
                        step App (Reply 0 (Raises (ClientError ''connection reset'')) 0) s \<noteq> None)"
    by code_simp
  then obtain s0 where
    s0: "scan_start allow_env ''https://example.com'' [''admin''] 2 = Inr s0"
    by (cases "scan_start allow_env ''https://example.com'' [''admin''] 2") simp_all
  from c have c2: "case exec App [Grant 0] s0 of None \<Rightarrow> False
            | Some s \<Rightarrow> step App (Reply 0 (Response ok_response) (1 / 2)) s \<noteq> None \<and>
                        step App (Reply 0 (Raises TimeoutError) 0) s \<noteq> None \<and>
                        step App (Reply 0 (Raises (ClientError ''connection reset'')) 0) s \<noteq> None"
    by (simp only: s0 sum.case)
  then obtain s where s: "exec App [Grant 0] s0 = Some s"
    by (auto simp del: exec.simps step.simps split: option.splits)
  note c2 [unfolded s option.case]
  with s0 s show ?thesis by blast
qed

theorem polite_pause_after_response_witness:
  "\<exists>s s1 s2.
     step App (Reply 0 (Response ok_response) (1 / 2)) s = Some s1 \<and>
     step App (Reply 0 (Raises TimeoutError) 0) s = Some s2 \<and>
     results s1 = results s @
       [(t_path (tasks s ! 0),
         Success (t_url (tasks s ! 0)) 200 ''OK'' ''https://example.com/admin'' (Some 12)
           (Some ''nginx'') [(''Server'', ''nginx'')])] \<and>
     t_loc (tasks s1 ! 0) = Polite \<and> sem s1 = sem s \<and>
     events s1 = events s @ [EvSleep (t_path (tasks s ! 0)) (23 / 100)] \<and>
     t_loc (tasks s2 ! 0) = Done \<and> sem s2 = sem s + held (tasks s ! 0) \<and>
     events s2 = events s @ replicate (held (tasks s ! 0)) (EvRelease (t_path (tasks s ! 0)))"
proof -
  from sample_in_flight obtain s s1 s2 where
    h1: "step App (Reply 0 (Response ok_response) (1 / 2)) s = Some s1"
    and h2: "step App (Reply 0 (Raises TimeoutError) 0) s = Some s2" by auto
  have dn: "t_loc (tasks s2 ! 0) \<noteq> Backoff"
    using h2 by (auto simp: on_reply_def finish_def append_result_def Let_def split: if_splits)
  have hd: "headers_get (resp_headers ok_response) ''Server'' = Some ''nginx''"
    "dict_of_items (resp_headers ok_response) = [(''Server'', ''nginx'')]"
    by (simp_all add: ok_response_def dict_of_items_def lower_def)
  from polite_pause_after_response [OF h1] hd have
    p: "results s1 = results s @
       [(t_path (tasks s ! 0),
         Success (t_url (tasks s ! 0)) 200 ''OK'' ''https://example.com/admin'' (Some 12)
           (Some ''nginx'') [(''Server'', ''nginx'')])]"
      "t_loc (tasks s1 ! 0) = Polite" "sem s1 = sem s"
      "events s1 = events s @ [EvSleep (t_path (tasks s ! 0)) (23 / 100)]"
    by (simp_all add: ok_response_def DELAY_BETWEEN_REQUESTS_def)
  from polite_pause_after_response [OF h2] dn have
    q: "t_loc (tasks s2 ! 0) = Done" "sem s2 = sem s + held (tasks s ! 0)"
      "events s2 = events s @ replicate (held (tasks s ! 0)) (EvRelease (t_path (tasks s ! 0)))"
    by blast+
  from h1 h2 p q show ?thesis by blast
qed

section \<open>Requests per path\<close>

lemma gets_append: "gets k (es @ evs) = gets k es + gets k evs"
  by (simp add: gets_def)

lemma gets_none: "\<forall>e \<in> set evs. is_get e \<longrightarrow> event_path e \<noteq> k \<Longrightarrow> gets k evs = 0"
  by (auto simp: gets_def filter_empty_conv)

lemma moves_task_inv:
  "moves t t' r evs \<Longrightarrow> task_inv es t \<Longrightarrow> task_inv (es @ evs) t'"
proof (induction rule: moves.induct)
  case (m_grant t)
  then show ?case by (simp add: task_inv_def gets_def attempts_def)
next
  case (m_success t st rs fu cl sv hs d)
  then show ?case by (simp add: task_inv_def gets_def attempts_def)
next
  case (m_failed t err)
  then show ?case by (simp add: task_inv_def gets_def attempts_def)
next
  case (m_retry t)
  then show ?case by (simp add: task_inv_def gets_def attempts_def)
next
  case (m_polite t)
  then show ?case by (simp add: task_inv_def gets_def attempts_def)
next
  case (m_backoff t)
  then show ?case by (simp add: task_inv_def gets_def attempts_def)
qed

lemma other_task_inv:
  "\<forall>e \<in> set evs. event_path e \<noteq> t_path t \<Longrightarrow> task_inv es t \<Longrightarrow> task_inv (es @ evs) t"
  by (simp add: task_inv_def gets_append gets_none)

lemma step_task_inv:
  assumes "step v l s = Some s'" and "distinct (map t_path (tasks s))"
    and "\<forall>i < length (tasks s). task_inv (events s) (tasks s ! i)"
  shows "\<forall>i < length (tasks s'). task_inv (events s') (tasks s' ! i)"
proof (intro allI impI)
  fix i assume i: "i < length (tasks s')"
  from step_shape [OF assms(1)] obtain j t' r evs where
    j: "j < length (tasks s)" and mv: "moves (tasks s ! j) t' r evs"
    and ts: "tasks s' = (tasks s)[j := t']" and es: "events s' = events s @ evs" by blast
  from i ts have i': "i < length (tasks s)" by simp
  show "task_inv (events s') (tasks s' ! i)"
  proof (cases "i = j")
    case True
    with moves_task_inv [OF mv] assms(3) j ts es show ?thesis by simp
  next
    case False
    with assms(2) i' j have "t_path (tasks s ! i) \<noteq> t_path (tasks s ! j)"
      by (metis distinct_conv_nth length_map nth_map)
    with moves_events [OF mv] have "\<forall>e \<in> set evs. event_path e \<noteq> t_path (tasks s ! i)"
      by metis
    from other_task_inv [OF this] assms(3) i' False ts es show ?thesis by simp
  qed
qed

lemma exec_task_inv:
  "exec v ls s = Some s' \<Longrightarrow> distinct (map t_path (tasks s)) \<Longrightarrow>
   \<forall>i < length (tasks s). task_inv (events s) (tasks s ! i) \<Longrightarrow>
   \<forall>i < length (tasks s'). task_inv (events s') (tasks s' ! i)"
proof (induction ls arbitrary: s)
  case Nil
  then show ?case by simp
next
  case (Cons l ls)
  then obtain s1 where st: "step v l s = Some s1" and ex: "exec v ls s1 = Some s'"
    by (auto split: option.splits)
  from step_identity [OF st] Cons.prems(2) have d1: "distinct (map t_path (tasks s1))" by simp
  from step_task_inv [OF st Cons.prems(2,3)] Cons.IH [OF ex d1] show ?case by blast
qed

lemma worker_get: "is_get e \<Longrightarrow> worker_event e"
  by (cases e) simp_all

lemma reachable_task_inv:
  assumes "scan_start env b ps c = Inr s0" and "exec v ls s0 = Some s"
  shows "\<forall>i < length (tasks s). task_inv (events s) (tasks s ! i)"
proof -
  note ts = scan_start_tasks [OF assms(1)] and es = scan_start_events [OF assms(1)]
  from ts have d: "distinct (map t_path (tasks s0))" by (simp add: strict_sorted_iff)
  from es have g0: "gets k (events s0) = 0" for k
    by (intro gets_none) (auto dest: worker_get)
  from ts g0 have "\<forall>i < length (tasks s0). task_inv (events s0) (tasks s0 ! i)"
    by (simp add: task_inv_def attempts_def)
  from exec_task_inv [OF assms(2) d this] show ?thesis .
qed

lemma reachable_gets_other:
  assumes "scan_start env b ps c = Inr s0" and "exec v ls s0 = Some s"
    and "k \<notin> set (map t_path (tasks s))"
  shows "gets k (events s) = 0"
proof -
  from exec_events [OF assms(2)] obtain evs where evs: "events s = events s0 @ evs"
    "\<forall>e \<in> set evs. worker_event e \<and> event_path e \<in> set (map t_path (tasks s0))" by blast
  from exec_identity [OF assms(2)] assms(3) have "k \<notin> set (map t_path (tasks s0))" by simp
  with evs(2) have "gets k evs = 0" by (intro gets_none) auto
  moreover from scan_start_events [OF assms(1)] have "gets k (events s0) = 0"
    by (intro gets_none) (auto dest: worker_get)
  ultimately show ?thesis by (simp add: evs(1) gets_append)
qed

lemma task_inv_le: "task_inv es t \<Longrightarrow> gets (t_path t) es \<le> 2"
  by (auto simp: task_inv_def attempts_def split: if_splits)

lemma reachable_gets_le:
  assumes "scan_start env b ps c = Inr s0" and "exec v ls s0 = Some s"
  shows "gets k (events s) \<le> 2"
proof (cases "k \<in> set (map t_path (tasks s))")
  case True
  then obtain i where "i < length (tasks s)" "t_path (tasks s ! i) = k"
    by (metis in_set_conv_nth length_map nth_map)
  with reachable_task_inv [OF assms] task_inv_le show ?thesis by blast
next
  case False
  from reachable_gets_other [OF assms this] show ?thesis by simp
qed

section \<open>Schedules end, and when they can end with every task returned\<close>

lemma exec_append:
  "exec v (ls @ ls') s = (case exec v ls s of None \<Rightarrow> None | Some s1 \<Rightarrow> exec v ls' s1)"
  by (induction ls arbitrary: s) (auto split: option.splits)

lemma moves_fuel: "moves t t' r evs \<Longrightarrow> task_inv es t \<Longrightarrow> fuel t' < fuel t"
proof (induction rule: moves.induct)
  case (m_backoff t)
  then have "0 < t_retries t" by (simp add: task_inv_def)
  then have "nat (t_retries t - 1) + 1 = nat (t_retries t)" by simp
  with m_backoff show ?case by (simp add: fuel_def)
qed (simp_all add: fuel_def)

lemma step_fuel:
  assumes "step v l s = Some s'"
    and "\<forall>i < length (tasks s). task_inv (events s) (tasks s ! i)"
  shows "sum_list (map fuel (tasks s')) < sum_list (map fuel (tasks s))"
proof -
  from step_shape [OF assms(1)] obtain j t' r evs where
    j: "j < length (tasks s)" and mv: "moves (tasks s ! j) t' r evs"
    and ts: "tasks s' = (tasks s)[j := t']" by blast
  from moves_fuel [OF mv] assms(2) j have "fuel t' < fuel (tasks s ! j)" by blast
  with sum_list_map_update [OF j, of fuel t'] show ?thesis by (simp add: ts)
qed

lemma exec_fuel:
  "exec v ls s = Some s' \<Longrightarrow> distinct (map t_path (tasks s)) \<Longrightarrow>
   \<forall>i < length (tasks s). task_inv (events s) (tasks s ! i) \<Longrightarrow>
   length ls + sum_list (map fuel (tasks s')) \<le> sum_list (map fuel (tasks s))"
proof (induction ls arbitrary: s)
  case Nil
  then show ?case by simp
next
  case (Cons l ls)
  then obtain s1 where st: "step v l s = Some s1" and ex: "exec v ls s1 = Some s'"
    by (auto split: option.splits)
  from step_identity [OF st] Cons.prems(2) have d1: "distinct (map t_path (tasks s1))" by simp
  from Cons.IH [OF ex d1 step_task_inv [OF st Cons.prems(2,3)]] step_fuel [OF st Cons.prems(3)]
  show ?case by simp
qed

lemma scan_start_fuel:
  assumes "scan_start env b ps c = Inr s0"
  shows "sum_list (map fuel (tasks s0)) = 8 * length (tasks s0)"
proof -
  from scan_start_tasks [OF assms] have "\<forall>t \<in> set (tasks s0). fuel t = 8"
    by (simp add: fuel_def)
  then have "map fuel (tasks s0) = replicate (length (tasks s0)) 8"
    by (simp add: map_replicate_const [symmetric] cong: map_cong)
  then show ?thesis by (simp add: sum_list_replicate)
qed

lemma scan_start_inv:
  assumes "scan_start env b ps c = Inr s0"
  shows "distinct (map t_path (tasks s0)) \<and>
         (\<forall>i < length (tasks s0). task_inv (events s0) (tasks s0 ! i))"
proof -
  from scan_start_tasks [OF assms] have "distinct (map t_path (tasks s0))"
    by (simp add: strict_sorted_iff)
  moreover from reachable_task_inv [OF assms, of v "[]" s0 for v]
  have "\<forall>i < length (tasks s0). task_inv (events s0) (tasks s0 ! i)" by simp
  ultimately show ?thesis by simp
qed

lemma held_sum_le: "\<forall>t \<in> set ts. held t \<le> 1 \<Longrightarrow> sum_list (map held ts) \<le> length ts"
  by (induction ts) auto

lemma progress:
  assumes inv: "\<forall>i < length (tasks s). task_inv (events s) (tasks s ! i)"
    and sl: "length (tasks s) < slots s" and nc: "\<not> complete s"
  shows "\<exists>l s'. step v l s = Some s'"
proof (cases "\<exists>j < length (tasks s). t_loc (tasks s ! j) \<in> {InFlight, Polite, Backoff}")
  case True
  then obtain j where j: "j < length (tasks s)"
    "t_loc (tasks s ! j) = InFlight \<or> t_loc (tasks s ! j) = Polite \<or> t_loc (tasks s ! j) = Backoff"
    by auto
  from j(2) consider "t_loc (tasks s ! j) = InFlight" | "t_loc (tasks s ! j) = Polite"
    | "t_loc (tasks s ! j) = Backoff" by blast
  then show ?thesis
  proof cases
    case 1
    with j(1) have "step v (Reply j (Raises TimeoutError) 0) s
        = Some (on_reply v j (Raises TimeoutError) 0 s)" by simp
    then show ?thesis by blast
  next
    case 2
    with j(1) have "step v (Wake j) s = Some (finish j s)" by simp
    then show ?thesis by blast
  next
    case 3
    with j(1) have "\<exists>s'. step v (Wake j) s = Some s'" by (simp add: Let_def)
    then show ?thesis by blast
  qed
next
  case False
  then have wd: "\<forall>j < length (tasks s). t_loc (tasks s ! j) = Waiting \<or> t_loc (tasks s ! j) = Done"
    by (metis insertCI loc.exhaust)
  have "held (tasks s ! j) \<le> 1" if "j < length (tasks s)" for j
  proof -
    from wd that consider "t_loc (tasks s ! j) = Waiting" | "t_loc (tasks s ! j) = Done" by blast
    then show ?thesis
    proof cases
      case 1
      with inv that have "t_retries (tasks s ! j) + int (length (t_outer (tasks s ! j))) = 1"
        "0 \<le> t_retries (tasks s ! j)" by (simp_all add: task_inv_def)
      then have "length (t_outer (tasks s ! j)) \<le> 1" by linarith
      with 1 show ?thesis by (simp add: held_def)
    next
      case 2
      then show ?thesis by (simp add: held_def)
    qed
  qed
  then have "\<forall>t \<in> set (tasks s). held t \<le> 1" by (metis in_set_conv_nth)
  from held_sum_le [OF this] sl have free: "0 < sem s" by (simp add: slots_def)
  from nc obtain j where j: "j < length (tasks s)" "t_loc (tasks s ! j) \<noteq> Done"
    by (auto simp: complete_def list_all_length)
  with wd have "t_loc (tasks s ! j) = Waiting" by blast
  with j(1) free have "\<exists>s'. step v (Grant j) s = Some s'" by (simp add: Let_def)
  then show ?thesis by blast
qed

lemma can_complete:
  "distinct (map t_path (tasks s)) \<Longrightarrow>
   \<forall>i < length (tasks s). task_inv (events s) (tasks s ! i) \<Longrightarrow>
   length (tasks s) < slots s \<Longrightarrow>
   \<exists>ls s'. exec v ls s = Some s' \<and> complete s'"
proof (induction "sum_list (map fuel (tasks s))" arbitrary: s rule: less_induct)
  case less
  show ?case
  proof (cases "complete s")
    case True
    then have "exec v [] s = Some s \<and> complete s" by simp
    then show ?thesis by blast
  next
    case False
    from progress [OF less.prems(2,3) False] obtain l s1 where st: "step v l s = Some s1"
      by blast
    from step_identity [OF st] have idp: "map t_path (tasks s1) = map t_path (tasks s)" by simp
    then have len: "length (tasks s1) = length (tasks s)" by (metis length_map)
    from idp less.prems(1) have d1: "distinct (map t_path (tasks s1))" by simp
    from step_slots [OF st] len less.prems(3) have sl1: "length (tasks s1) < slots s1" by simp
    from less.hyps [OF step_fuel [OF st less.prems(2)] d1
        step_task_inv [OF st less.prems(1,2)] sl1]
    obtain ls s' where "exec v ls s1 = Some s'" "complete s'" by blast
    with st have "exec v (l # ls) s = Some s' \<and> complete s'" by simp
    then show ?thesis by blast
  qed
qed

text \<open>
  Every schedule of a scan has at most eight steps for each task. When there are fewer
  tasks than slots, every schedule can be continued until \<^verbatim>\<open>scan_target\<close> returns.
\<close>

lemma scan_returns:
  assumes "scan_start env b ps c = Inr s0" and "exec v ls s0 = Some s"
  shows "length ls \<le> 8 * length (tasks s0)"
    and "length (tasks s0) < nat c \<Longrightarrow>
         \<exists>ls' res. scan_target v env b ps c (ls @ ls') = ScanReturned res"
proof -
  note i0 = scan_start_inv [OF assms(1)]
  from exec_fuel [OF assms(2)] i0 scan_start_fuel [OF assms(1)]
  show "length ls \<le> 8 * length (tasks s0)" by simp
  assume few: "length (tasks s0) < nat c"
  from exec_identity [OF assms(2)] have idp: "map t_path (tasks s) = map t_path (tasks s0)"
    by simp
  then have len: "length (tasks s) = length (tasks s0)" by (metis length_map)
  from idp i0 have d: "distinct (map t_path (tasks s))" by simp
  from exec_slots [OF assms(2)] scan_start_slots [OF assms(1)] few len
  have sl: "length (tasks s) < slots s" by simp
  from can_complete [OF d reachable_task_inv [OF assms] sl, of v]
  obtain ls' s' where "exec v ls' s = Some s'" "complete s'" by blast
  with assms have "scan_target v env b ps c (ls @ ls') = ScanReturned (map snd (results s'))"
    by (simp add: scan_target_def exec_append)
  then show "\<exists>ls' res. scan_target v env b ps c (ls @ ls') = ScanReturned res" by blast
qed

section \<open>Outcomes and paths\<close>

lemma complete_no_pending: "complete s \<Longrightarrow> filter (\<lambda>t. \<not> recorded t) (tasks s) = []"
  by (auto simp: complete_def recorded_def list_all_iff filter_empty_conv)

lemma reachable_accounted:
  assumes "scan_start env b ps c = Inr s0" and "exec v ls s0 = Some s"
  shows "accounted s = mset [0..<length ps]"
  using exec_accounted [OF assms(2)] scan_start_accounted [OF assms(1)] by simp

lemma scan_target_returned:
  assumes "scan_target v env b ps c ls = ScanReturned res"
  shows "\<exists>s0 s. scan_start env b ps c = Inr s0 \<and> exec v ls s0 = Some s \<and> complete s \<and>
                res = map snd (results s)"
  using assms by (auto simp: scan_target_def split: sum.splits option.splits if_splits)

lemma returned_length:
  assumes "scan_target v env b ps c ls = ScanReturned res"
  shows "length res = length ps"
proof -
  from scan_target_returned [OF assms] obtain s0 s where
    st: "scan_start env b ps c = Inr s0" and ex: "exec v ls s0 = Some s"
    and co: "complete s" and res: "res = map snd (results s)" by blast
  from reachable_accounted [OF st ex] complete_no_pending [OF co]
  have "mset (map fst (results s)) = mset [0..<length ps]" by (simp add: accounted_def)
  then have "size (mset (map fst (results s))) = size (mset [0..<length ps])" by (simp only:)
  with res show ?thesis by simp
qed

text \<open>
  What holds of the scans that return. Under every schedule of the event loop no path ever
  has two outcomes, and a schedule has at most eight steps for each task. When every task
  has returned, each position of \<^verbatim>\<open>paths\<close> has exactly one outcome, so \<^verbatim>\<open>scan_target\<close> returns
  as many results as there are paths, and \<^verbatim>\<open>api_scan\<close> answers with \<^verbatim>\<open>len(results) == checked
  == len(paths)\<close>. When there are fewer tasks than slots, every schedule can be continued
  until \<^verbatim>\<open>scan_target\<close> returns.
\<close>

lemma returned_scan_one_outcome_per_path:
  "(scan_start env b ps c = Inr s0 \<and> exec v ls s0 = Some s \<longrightarrow>
      length ls \<le> 8 * length (tasks s0) \<and>
      mset (map fst (results s)) \<subseteq># mset [0..<length ps] \<and>
      (complete s \<longrightarrow> mset (map fst (results s)) = mset [0..<length ps]) \<and>
      (length (tasks s0) < nat c \<longrightarrow>
         (\<exists>ls' res. scan_target v env b ps c (ls @ ls') = ScanReturned res))) \<and>
   (scan_target v env b ps c ls = ScanReturned res \<longrightarrow> length res = length ps) \<and>
   (api_scan env req ls = Some (ScanResponse res' checked) \<longrightarrow>
      length res' = checked \<and> checked = length (api_paths req))"
proof (intro conjI impI)
  assume a: "scan_start env b ps c = Inr s0 \<and> exec v ls s0 = Some s"
  then have st: "scan_start env b ps c = Inr s0" and ex: "exec v ls s0 = Some s" by simp_all
  from scan_returns(1) [OF st ex] show "length ls \<le> 8 * length (tasks s0)" .
  from a have acc: "accounted s = mset [0..<length ps]"
    using reachable_accounted by blast
  then show "mset (map fst (results s)) \<subseteq># mset [0..<length ps]"
    unfolding accounted_def by (metis mset_subset_eq_add_left)
  show "mset (map fst (results s)) = mset [0..<length ps]" if "complete s"
    using acc complete_no_pending [OF that] by (simp add: accounted_def)
  show "\<exists>ls' res. scan_target v env b ps c (ls @ ls') = ScanReturned res"
    if "length (tasks s0) < nat c"
    using scan_returns(2) [OF st ex that] .
next
  assume "scan_target v env b ps c ls = ScanReturned res"
  then show "length res = length ps" by (rule returned_length)
next
  assume a: "api_scan env req ls = Some (ScanResponse res' checked)"
  then obtain target conc where
    "scan_target App env target (api_paths req) conc ls = ScanReturned res'"
    and ch: "checked = length (api_paths req)"
    by (auto simp: api_scan_def Let_def split: option.splits if_splits scan.splits)
  from returned_length [OF this(1)] ch show "length res' = checked" by simp
  from ch show "checked = length (api_paths req)" .
qed

section \<open>Order of the results\<close>

text \<open>
  C10. In every state that a schedule reaches, the results are the Skipped outcomes that the
  loop over \<^verbatim>\<open>paths\<close> appended, in the order of their paths, followed by outcomes of workers
  only.
\<close>

theorem skipped_outcomes_first:
  assumes "scan_start env b ps c = Inr s0" and "exec v ls s0 = Some s"
  shows "\<exists>rest. results s = results s0 @ rest \<and>
           (\<forall>x \<in> set (results s0). is_skipped (snd x)) \<and>
           sorted_wrt (<) (map fst (results s0)) \<and>
           (\<forall>x \<in> set rest. \<not> is_skipped (snd x))"
proof -
  from exec_results [OF assms(2)] obtain rest where
    "results s = results s0 @ rest" "\<forall>x \<in> set rest. \<not> is_skipped (snd x)" by blast
  moreover from scan_start_results [OF assms(1)] have
    "sorted_wrt (<) (map fst (results s0))" "\<forall>x \<in> set (results s0). is_skipped (snd x)"
    by auto
  ultimately show ?thesis by blast
qed

section \<open>Paths that robots.txt denies\<close>

text \<open>
  C6 as stated fails on the reason: the code records \<^verbatim>\<open>disallowed_by_robots_txt\<close>.
\<close>

theorem skipped_reason_counterexample:
  "(case scan_start deny_admin_env ''https://example.com'' [''admin''] 10 of
      Inl e \<Rightarrow> False
    | Inr s0 \<Rightarrow>
        results s0 = [(0, Skipped ''https://example.com/admin'' ''disallowed_by_robots_txt'')] \<and>
        results s0 \<noteq> [(0, Skipped ''https://example.com/admin'' ''disallowed by robots.txt'')])"
  by code_simp

text \<open>
  C6, amended. A path that the gate denies has the outcome Skipped with the reason
  \<^verbatim>\<open>disallowed_by_robots_txt\<close> before any worker runs, and keeps it; it has no task, so under
  every schedule no slot is acquired, no request issued and no sleep made for it.
\<close>

theorem denied_path_skipped:
  assumes "scan_start env b ps c = Inr s0" and "exec v ls s0 = Some s"
    and "k < length ps" and "\<not> snd (can_fetch_robots env k b (ps ! k))"
  shows "(\<exists>u. resolve (bracketed_host_ok env) (netloc_ok env) b (ps ! k) = Inr u \<and>
              (k, Skipped u ''disallowed_by_robots_txt'') \<in> set (results s0)) \<and>
         set (results s0) \<subseteq> set (results s) \<and>
         k \<notin> set (map t_path (tasks s)) \<and>
         (\<forall>e \<in> set (events s). worker_event e \<longrightarrow> event_path e \<noteq> k)"
proof -
  note rs = scan_start_results [OF assms(1)] and ts = scan_start_tasks [OF assms(1)]
  have notask0: "k \<notin> set (map t_path (tasks s0))"
    using ts assms(4) by auto
  from scan_start_accounted [OF assms(1)] assms(3)
  have "k \<in># accounted s0" by simp
  then have "k \<in> set (map fst (results s0)) \<or>
             k \<in> set (map t_path (filter (\<lambda>t. \<not> recorded t) (tasks s0)))"
    unfolding accounted_def by (metis union_iff set_mset_mset)
  with notask0 have "k \<in> set (map fst (results s0))" by auto
  then obtain x where x: "x \<in> set (results s0)" "fst x = k" by auto
  with rs obtain u where u: "resolve (bracketed_host_ok env) (netloc_ok env) b (ps ! k) = Inr u"
    "snd x = Skipped u ''disallowed_by_robots_txt''" by blast
  from x u have "(k, Skipped u ''disallowed_by_robots_txt'') \<in> set (results s0)"
    by (metis prod.collapse)
  with u have one: "\<exists>u. resolve (bracketed_host_ok env) (netloc_ok env) b (ps ! k) = Inr u \<and>
              (k, Skipped u ''disallowed_by_robots_txt'') \<in> set (results s0)" by blast
  from exec_results [OF assms(2)] have two: "set (results s0) \<subseteq> set (results s)" by auto
  from exec_identity [OF assms(2)] notask0
  have three: "k \<notin> set (map t_path (tasks s))" by simp
  from exec_events [OF assms(2)] obtain evs where evs: "events s = events s0 @ evs"
    "\<forall>e \<in> set evs. worker_event e \<and> event_path e \<in> set (map t_path (tasks s0))" by blast
  with scan_start_events [OF assms(1)] notask0
  have four: "\<forall>e \<in> set (events s). worker_event e \<longrightarrow> event_path e \<noteq> k" by auto
  from one two three four show ?thesis by blast
qed

section \<open>The Path Resolver\<close>











section \<open>The sample scan\<close>

lemma sample_run:
  "\<exists>s0 s. scan_start deny_admin_env ''https://example.com'' sample_paths 3 = Inr s0 \<and>
          exec App sample_schedule s0 = Some s \<and> complete s \<and> length (tasks s0) = 2"
proof -
  have "case scan_start deny_admin_env ''https://example.com'' sample_paths 3 of
          Inl e \<Rightarrow> False
        | Inr s0 \<Rightarrow> length (tasks s0) = 2 \<and>
            (case exec App sample_schedule s0 of None \<Rightarrow> False | Some s \<Rightarrow> complete s)"
    by code_simp
  then show ?thesis by (auto split: sum.splits option.splits)
qed

theorem skipped_outcomes_first_witness:
  "\<exists>s0 s rest.
     scan_start deny_admin_env ''https://example.com'' sample_paths 3 = Inr s0 \<and>
     exec App sample_schedule s0 = Some s \<and>
     results s = results s0 @ rest \<and> (\<forall>x \<in> set (results s0). is_skipped (snd x)) \<and>
     sorted_wrt (<) (map fst (results s0)) \<and> (\<forall>x \<in> set rest. \<not> is_skipped (snd x))"
proof -
  from sample_run obtain s0 s where
    h1: "scan_start deny_admin_env ''https://example.com'' sample_paths 3 = Inr s0"
    and h2: "exec App sample_schedule s0 = Some s" by blast
  from skipped_outcomes_first [OF h1 h2] h1 h2 show ?thesis by blast
qed

theorem denied_path_skipped_witness:
  "\<exists>s0 s u.
     scan_start deny_admin_env ''https://example.com'' sample_paths 3 = Inr s0 \<and>
     exec App sample_schedule s0 = Some s \<and> (1::nat) < length sample_paths \<and>
     \<not> snd (can_fetch_robots deny_admin_env 1 ''https://example.com'' (sample_paths ! 1)) \<and>
     resolve (bracketed_host_ok deny_admin_env) (netloc_ok deny_admin_env) ''https://example.com'' (sample_paths ! 1) = Inr u \<and>
     (1, Skipped u ''disallowed_by_robots_txt'') \<in> set (results s) \<and>
     1 \<notin> set (map t_path (tasks s)) \<and>
     (\<forall>e \<in> set (events s). worker_event e \<longrightarrow> event_path e \<noteq> 1)"
proof -
  from sample_run obtain s0 s where
    h1: "scan_start deny_admin_env ''https://example.com'' sample_paths 3 = Inr s0"
    and h2: "exec App sample_schedule s0 = Some s" by blast
  have h3: "(1::nat) < length sample_paths" by (simp add: sample_paths_def)
  have h4: "\<not> snd (can_fetch_robots deny_admin_env 1 ''https://example.com'' (sample_paths ! 1))"
    by code_simp
  from denied_path_skipped [OF h1 h2 h3 h4] h1 h2 h3 h4 show ?thesis by blast
qed


section \<open>The retry\<close>

lemma done_no_step:
  "j < length (tasks s) \<Longrightarrow> t_loc (tasks s ! j) = Done \<Longrightarrow> label_task l = j \<Longrightarrow> step v l s = None"
  by (cases l) simp_all

text \<open>
  What holds of the requests that are issued. Under every schedule at most two requests are
  issued for a path. When a request of a task ends, it is the task's first
  (\<^verbatim>\<open>retries = 1\<close>) or its second (\<^verbatim>\<open>retries = 0\<close>). A response is recorded as Success. A
  timeout, a response error and any other exception are recorded at once and the task
  returns, after which no step of it is possible. A client error on the first request
  records nothing, starts a sleep of 0.5 s, and when that sleep ends the task calls
  \<^verbatim>\<open>fetch\<close> again with \<^verbatim>\<open>retries = 0\<close> and waits for a slot; a client error on the second
  request is recorded as \<^verbatim>\<open>client_error\<close>.
\<close>

lemma reply_effects:
  assumes "scan_start env b ps c = Inr s0" and "exec v ls s0 = Some s"
  shows "gets k (events s) \<le> 2 \<and>
    (step v (Reply j g r) s = Some s' \<longrightarrow>
       (let t = tasks s ! j in
        (t_retries t = 1 \<and> gets (t_path t) (events s) = 1 \<or>
         t_retries t = 0 \<and> gets (t_path t) (events s) = 2) \<and>
        (case g of
           Response resp \<Rightarrow>
             (\<exists>st rs fu cl sv hs.
                results s' = results s @ [(t_path t, Success (t_url t) st rs fu cl sv hs)]) \<and>
             t_loc (tasks s' ! j) = Polite
         | Raises e \<Rightarrow>
             (case e of
                TimeoutError \<Rightarrow>
                  results s' = results s @ [(t_path t, Failed (t_url t) ''timeout'')] \<and>
                  t_loc (tasks s' ! j) = Done
              | ClientResponseError m \<Rightarrow>
                  results s' = results s @ [(t_path t, Failed (t_url t) (''response_error: '' @ m))] \<and>
                  t_loc (tasks s' ! j) = Done
              | ClientError m \<Rightarrow>
                  if t_retries t = 1
                  then results s' = results s \<and> t_loc (tasks s' ! j) = Backoff \<and>
                       events s' = events s @ [EvSleep (t_path t) (1 / 2)] \<and>
                       (\<exists>s''. step v (Wake j) s' = Some s'' \<and> results s'' = results s \<and>
                              events s'' = events s' \<and> t_loc (tasks s'' ! j) = Waiting \<and>
                              t_retries (tasks s'' ! j) = 0)
                  else results s' = results s @ [(t_path t, Failed (t_url t) (''client_error: '' @ m))] \<and>
                       t_loc (tasks s' ! j) = Done
              | ValueError m \<Rightarrow>
                  results s' = results s @ [(t_path t, Failed (t_url t) (''other_error: '' @ m))] \<and>
                  t_loc (tasks s' ! j) = Done
              | OtherException m \<Rightarrow>
                  results s' = results s @ [(t_path t, Failed (t_url t) (''other_error: '' @ m))] \<and>
                  t_loc (tasks s' ! j) = Done)))) \<and>
    (j' < length (tasks s) \<and> t_loc (tasks s ! j') = Done \<and> label_task l = j' \<longrightarrow>
       step v l s = None)"
proof (intro conjI impI)
  show "gets k (events s) \<le> 2" by (rule reachable_gets_le [OF assms])
next
  assume st: "step v (Reply j g r) s = Some s'"
  define t where "t = tasks s ! j"
  from st have en: "j < length (tasks s)" "t_loc t = InFlight"
    and s': "s' = on_reply v j g r s"
    by (auto simp: t_def split: if_splits)
  from reachable_task_inv [OF assms] en have inv: "task_inv (events s) t"
    by (simp add: t_def)
  with en have f: "t_retries t + int (length (t_outer t)) = 1" "0 \<le> t_retries t"
    "gets (t_path t) (events s) = length (t_outer t) + 1"
    by (simp_all add: task_inv_def attempts_def)
  from f(1,2) have "length (t_outer t) = 0 \<or> length (t_outer t) = 1" by linarith
  with f have first_or_second:
    "t_retries t = 1 \<and> t_outer t = [] \<and> gets (t_path t) (events s) = 1 \<or>
     t_retries t = 0 \<and> gets (t_path t) (events s) = 2"
    by auto
  have eff: "(case g of
           Response resp \<Rightarrow>
             (\<exists>st rs fu cl sv hs.
                results s' = results s @ [(t_path t, Success (t_url t) st rs fu cl sv hs)]) \<and>
             t_loc (tasks s' ! j) = Polite
         | Raises e \<Rightarrow>
             (case e of
                TimeoutError \<Rightarrow>
                  results s' = results s @ [(t_path t, Failed (t_url t) ''timeout'')] \<and>
                  t_loc (tasks s' ! j) = Done
              | ClientResponseError m \<Rightarrow>
                  results s' = results s @ [(t_path t, Failed (t_url t) (''response_error: '' @ m))] \<and>
                  t_loc (tasks s' ! j) = Done
              | ClientError m \<Rightarrow>
                  if t_retries t = 1
                  then results s' = results s \<and> t_loc (tasks s' ! j) = Backoff \<and>
                       events s' = events s @ [EvSleep (t_path t) (1 / 2)] \<and>
                       (\<exists>s''. step v (Wake j) s' = Some s'' \<and> results s'' = results s \<and>
                              events s'' = events s' \<and> t_loc (tasks s'' ! j) = Waiting \<and>
                              t_retries (tasks s'' ! j) = 0)
                  else results s' = results s @ [(t_path t, Failed (t_url t) (''client_error: '' @ m))] \<and>
                       t_loc (tasks s' ! j) = Done
              | ValueError m \<Rightarrow>
                  results s' = results s @ [(t_path t, Failed (t_url t) (''other_error: '' @ m))] \<and>
                  t_loc (tasks s' ! j) = Done
              | OtherException m \<Rightarrow>
                  results s' = results s @ [(t_path t, Failed (t_url t) (''other_error: '' @ m))] \<and>
                  t_loc (tasks s' ! j) = Done))"
  proof (cases g)
    case (Response resp)
    with en s' show ?thesis
      by (simp add: on_reply_def append_result_def Let_def t_def)
  next
    case (Raises e)
    show ?thesis
    proof (cases e)
      case (ClientError m)
      from first_or_second show ?thesis
      proof
        assume "t_retries t = 1 \<and> t_outer t = [] \<and> gets (t_path t) (events s) = 1"
        with en s' Raises ClientError show ?thesis
          by (simp add: on_reply_def Let_def t_def)
      next
        assume "t_retries t = 0 \<and> gets (t_path t) (events s) = 2"
        with en s' Raises ClientError show ?thesis
          by (simp add: on_reply_def append_result_def finish_def Let_def t_def)
      qed
    qed (use en s' Raises in
          \<open>simp_all add: on_reply_def append_result_def finish_def Let_def t_def str_exn_def\<close>)
  qed
  from first_or_second eff
  show "let t = tasks s ! j in
        (t_retries t = 1 \<and> gets (t_path t) (events s) = 1 \<or>
         t_retries t = 0 \<and> gets (t_path t) (events s) = 2) \<and>
        (case g of
           Response resp \<Rightarrow>
             (\<exists>st rs fu cl sv hs.
                results s' = results s @ [(t_path t, Success (t_url t) st rs fu cl sv hs)]) \<and>
             t_loc (tasks s' ! j) = Polite
         | Raises e \<Rightarrow>
             (case e of
                TimeoutError \<Rightarrow>
                  results s' = results s @ [(t_path t, Failed (t_url t) ''timeout'')] \<and>
                  t_loc (tasks s' ! j) = Done
              | ClientResponseError m \<Rightarrow>
                  results s' = results s @ [(t_path t, Failed (t_url t) (''response_error: '' @ m))] \<and>
                  t_loc (tasks s' ! j) = Done
              | ClientError m \<Rightarrow>
                  if t_retries t = 1
                  then results s' = results s \<and> t_loc (tasks s' ! j) = Backoff \<and>
                       events s' = events s @ [EvSleep (t_path t) (1 / 2)] \<and>
                       (\<exists>s''. step v (Wake j) s' = Some s'' \<and> results s'' = results s \<and>
                              events s'' = events s' \<and> t_loc (tasks s'' ! j) = Waiting \<and>
                              t_retries (tasks s'' ! j) = 0)
                  else results s' = results s @ [(t_path t, Failed (t_url t) (''client_error: '' @ m))] \<and>
                       t_loc (tasks s' ! j) = Done
              | ValueError m \<Rightarrow>
                  results s' = results s @ [(t_path t, Failed (t_url t) (''other_error: '' @ m))] \<and>
                  t_loc (tasks s' ! j) = Done
              | OtherException m \<Rightarrow>
                  results s' = results s @ [(t_path t, Failed (t_url t) (''other_error: '' @ m))] \<and>
                  t_loc (tasks s' ! j) = Done))"
    unfolding Let_def t_def [symmetric] by blast
next
  assume "j' < length (tasks s) \<and> t_loc (tasks s ! j') = Done \<and> label_task l = j'"
  then show "step v l s = None" using done_no_step by blast
qed


section \<open>The retry and the only slot\<close>

lemma deadlocked_no_step: "deadlocked s \<Longrightarrow> step v l s = None"
  by (cases l) (auto simp: deadlocked_def list_all_length)

lemma deadlocked_exec: "deadlocked s \<Longrightarrow> exec v ls s = (if ls = [] then Some s else None)"
  by (cases ls) (simp_all add: deadlocked_no_step)

lemma stuck_state:
  "\<exists>s0 s. scan_start allow_env ''https://example.com'' [''admin''] 1 = Inr s0 \<and>
          exec Scanner stuck_schedule s0 = Some s \<and> deadlocked s \<and> results s = [] \<and>
          gets 0 (events s) = 1 \<and> filter is_sleep (events s) = [EvSleep 0 (1 / 2)] \<and>
          map t_retries (tasks s) = [0] \<and> map t_loc (tasks s) = [Waiting]"
proof -
  have c: "case scan_start allow_env ''https://example.com'' [''admin''] 1 of
          Inl e \<Rightarrow> False
        | Inr s0 \<Rightarrow> (case exec Scanner stuck_schedule s0 of None \<Rightarrow> False
            | Some s \<Rightarrow> deadlocked s \<and> results s = [] \<and>
                gets 0 (events s) = 1 \<and> filter is_sleep (events s) = [EvSleep 0 (1 / 2)] \<and>
                map t_retries (tasks s) = [0] \<and> map t_loc (tasks s) = [Waiting])"
    by code_simp
  then obtain s0 where
    s0: "scan_start allow_env ''https://example.com'' [''admin''] 1 = Inr s0"
    by (cases "scan_start allow_env ''https://example.com'' [''admin''] 1") simp_all
  from c have c2: "case exec Scanner stuck_schedule s0 of None \<Rightarrow> False
            | Some s \<Rightarrow> deadlocked s \<and> results s = [] \<and>
                gets 0 (events s) = 1 \<and> filter is_sleep (events s) = [EvSleep 0 (1 / 2)] \<and>
                map t_retries (tasks s) = [0] \<and> map t_loc (tasks s) = [Waiting]"
    by (simp only: s0 sum.case)
  then obtain s where s: "exec Scanner stuck_schedule s0 = Some s"
    by (auto simp del: exec.simps step.simps split: option.splits)
  note c2 [unfolded s option.case]
  with s0 s show ?thesis by (intro exI [of _ s0] exI [of _ s]) simp
qed

text \<open>
  C1 (the code departs from the claim). The claim: every scan gives every path exactly one
  outcome. With one path, \<^verbatim>\<open>concurrency = 1\<close> and a first request that ends in a client error,
  the retry waits for a second slot while the task holds the only one (the defect of C2).
  However the schedule goes on from there, \<^verbatim>\<open>scan_target\<close> does not return, and the path has
  no outcome in any state that is reached.
\<close>

theorem scan_never_returns:
  "scan_target Scanner allow_env ''https://example.com'' [''admin''] 1 (stuck_schedule @ ls)
     = ScanPending \<and>
   (case scan_start allow_env ''https://example.com'' [''admin''] 1 of
      Inl e \<Rightarrow> False
    | Inr s0 \<Rightarrow>
        (case exec Scanner (stuck_schedule @ ls) s0 of
           None \<Rightarrow> ls \<noteq> []
         | Some s \<Rightarrow> ls = [] \<and> results s = [] \<and> \<not> complete s))"
proof -
  from stuck_state obtain s0 s where
    s0: "scan_start allow_env ''https://example.com'' [''admin''] 1 = Inr s0"
    and s: "exec Scanner stuck_schedule s0 = Some s" and d: "deadlocked s"
    and r: "results s = []" by auto
  from d have nc: "\<not> complete s" by (simp add: deadlocked_def)
  have ex: "exec Scanner (stuck_schedule @ ls) s0 = (if ls = [] then Some s else None)"
    by (simp only: exec_append s option.case deadlocked_exec [OF d])
  show ?thesis
    unfolding scan_target_def s0 sum.case ex using nc r by simp
qed

text \<open>
  C4 (the code departs from the claim). The claim: a client error on the first request
  triggers one retry after 0.5 s, whose failure or success is then recorded. On the same
  input as for C1 and C2 the first request is issued, fails, and the worker sleeps 0.5 s;
  then the retry has to enter \<^verbatim>\<open>async with sem\<close> again while the task itself holds the only
  slot. No step is possible any more: the second request is never issued and nothing is
  recorded for the path.
\<close>

theorem retry_request_never_issued:
  "(case scan_start allow_env ''https://example.com'' [''admin''] 1 of
      Inl e \<Rightarrow> False
    | Inr s0 \<Rightarrow>
        (case exec Scanner stuck_schedule s0 of
           None \<Rightarrow> False
         | Some s \<Rightarrow> gets 0 (events s) = 1 \<and> filter is_sleep (events s) = [EvSleep 0 (1 / 2)] \<and>
                     results s = [] \<and> map t_retries (tasks s) = [0] \<and>
                     map t_loc (tasks s) = [Waiting] \<and> (\<forall>l. step Scanner l s = None)))"
proof -
  from stuck_state obtain s0 s where
    s0: "scan_start allow_env ''https://example.com'' [''admin''] 1 = Inr s0"
    and s: "exec Scanner stuck_schedule s0 = Some s" and d: "deadlocked s"
    and r: "results s = []" "gets 0 (events s) = 1"
      "filter is_sleep (events s) = [EvSleep 0 (1 / 2)]"
      "map t_retries (tasks s) = [0]" "map t_loc (tasks s) = [Waiting]" by auto
  from deadlocked_no_step [OF d] have "\<forall>l. step Scanner l s = None" by blast
  with r show ?thesis by (simp only: s0 s sum.case option.case simp_thms)
qed

end
